theory Spec2Isabelle
  imports Main "HOL-Library.Sublist"
begin

section \<open>Paths of filesystem.cxx\<close>

text \<open>
  The embedding follows the build of \<^verbatim>\<open>filesystem.cxx\<close> without \<^verbatim>\<open>WINDOWS\<close> defined (the
  root-relative platform, separator \<^verbatim>\<open>/\<close>); with \<^verbatim>\<open>WINDOWS\<close> defined the translation unit
  names an undeclared \<^verbatim>\<open>DirectorResource\<close> in \<^verbatim>\<open>ProcessDirectoryContents\<close> and is no program.
  \<^verbatim>\<open>String\<close> is a byte string, \<^verbatim>\<open>Path::PartCollection\<close> a sequence of strings.
\<close>

datatype error =
    Construction string   \<comment> \<open>\<^verbatim>\<open>throw Error::Construction(msg)\<close>\<close>
  | System string         \<comment> \<open>\<^verbatim>\<open>throw Error::System(msg)\<close>\<close>
  | AssertionFailed       \<comment> \<open>a failed \<^verbatim>\<open>assert\<close>\<close>
  | UndefinedBehaviour    \<comment> \<open>\<^verbatim>\<open>back()\<close> or \<^verbatim>\<open>--end()\<close> on an empty container\<close>

type_synonym PartCollection = "string list"

subsection \<open>IsAbsolute\<close>

text \<open>
  \<^verbatim>\<open>RawPath[0] != '/'\<close>. On the empty string \<^verbatim>\<open>RawPath[0]\<close> is the terminating NUL, which is not
  the separator.
\<close>

definition IsAbsolute :: "string \<Rightarrow> bool" where
  "IsAbsolute RawPath = (case RawPath of [] \<Rightarrow> False | c # _ \<Rightarrow> c = CHR ''/'')"

subsection \<open>PathStringIterator\<close>

text \<open>
  \<^verbatim>\<open>PathString.find(u8"/", pos)\<close>: the least index \<open>i \<ge> pos\<close> holding the separator, or
  \<^verbatim>\<open>String::npos\<close>, here \<open>None\<close>.
\<close>

definition find_sep :: "string \<Rightarrow> nat \<Rightarrow> nat option" where
  "find_sep PathString pos =
     (let rest = drop pos PathString
      in if CHR ''/'' \<in> set rest
         then Some (pos + length (takeWhile (\<lambda>c. c \<noteq> CHR ''/'') rest))
         else None)"

record PathStringIterator =
  PreviousMarker :: nat
  Marker :: "nat option"   \<comment> \<open>\<open>None\<close> is \<^verbatim>\<open>String::npos\<close>\<close>

definition PathStringIterator_init :: PathStringIterator where
  "PathStringIterator_init = \<lparr>PreviousMarker = 0, Marker = Some 0\<rparr>"

definition FindNext :: "string \<Rightarrow> PathStringIterator \<Rightarrow> bool \<times> PathStringIterator" where
  "FindNext PathString it =
     (case Marker it of
        None \<Rightarrow> (False, it)
      | Some m \<Rightarrow>
          (True, \<lparr>PreviousMarker = m,
                  Marker = (case find_sep PathString m of None \<Rightarrow> None | Some i \<Rightarrow> Some (i + 1))\<rparr>))"

text \<open>
  \<^verbatim>\<open>Read\<close> asserts \<^verbatim>\<open>Marker > 0\<close>. With \<^verbatim>\<open>Marker == npos\<close> the length
  \<^verbatim>\<open>Marker - 1 - PreviousMarker\<close> is huge and \<^verbatim>\<open>substr\<close> runs to the end of the string.
  After \<^verbatim>\<open>FindNext\<close> a \<^verbatim>\<open>Marker\<close> other than \<^verbatim>\<open>npos\<close> is above \<^verbatim>\<open>PreviousMarker\<close>, so that
  the difference of naturals is the difference of the code.
\<close>

definition Read :: "string \<Rightarrow> PathStringIterator \<Rightarrow> error + string" where
  "Read PathString it =
     (case Marker it of
        None \<Rightarrow> Inr (drop (PreviousMarker it) PathString)
      | Some m \<Rightarrow>
          if m = 0 then Inl AssertionFailed
          else if m - 1 - PreviousMarker it = 0 then Inr []
          else Inr (take (m - 1 - PreviousMarker it) (drop (PreviousMarker it) PathString)))"

subsection \<open>Path::Path(String const &Absolute)\<close>

text \<open>
  The loop \<^verbatim>\<open>while (AbsoluteIterator.FindNext())\<close> ends because every \<^verbatim>\<open>FindNext\<close> that
  returns true moves \<^verbatim>\<open>Marker\<close> forward or to \<^verbatim>\<open>npos\<close>.
\<close>

definition iterator_measure :: "string \<Rightarrow> PathStringIterator \<Rightarrow> nat" where
  "iterator_measure PathString it =
     (case Marker it of None \<Rightarrow> 0 | Some m \<Rightarrow> Suc (length PathString - m))"

function Path_loop :: "string \<Rightarrow> PathStringIterator \<Rightarrow> PartCollection \<Rightarrow> error + PartCollection" where
  "Path_loop Absolute AbsoluteIterator Parts =
     (case FindNext Absolute AbsoluteIterator of
        (False, _) \<Rightarrow> Inr Parts
      | (True, it') \<Rightarrow>
          (case Read Absolute it' of
             Inl e \<Rightarrow> Inl e
           | Inr Part \<Rightarrow>
               if Part = [] then Path_loop Absolute it' Parts
               else if Part = ''..'' then
                 (if Parts = [] then Inl (Construction ''.. directory specified at root level!'')
                  else Path_loop Absolute it' (butlast Parts))
               else if Part = ''.'' then Path_loop Absolute it' Parts
               else Path_loop Absolute it' (Parts @ [Part])))"
  by pat_completeness auto
termination
proof -
  have shorter: "length (takeWhile (\<lambda>c. c \<noteq> x) r) < length r" if "x \<in> set r"
    for x :: char and r
    using that by (induction r) auto
  have forward: "iterator_measure s it' < iterator_measure s it"
    if "(True, it') = FindNext s it" for s it it'
  proof (cases "Marker it")
    case None
    with that show ?thesis by (simp add: FindNext_def)
  next
    case (Some m)
    show ?thesis
    proof (cases "CHR ''/'' \<in> set (drop m s)")
      case True
      from shorter [OF True] Some that show ?thesis
        by (simp add: FindNext_def find_sep_def iterator_measure_def Let_def True)
    next
      case False
      with Some that show ?thesis
        by (simp add: FindNext_def find_sep_def iterator_measure_def Let_def)
    qed
  qed
  show ?thesis
    by (relation "measure (\<lambda>(s, it, ps). iterator_measure s it)") (auto dest: forward)
qed

declare Path_loop.simps [simp del]

definition Path :: "string \<Rightarrow> error + PartCollection" where
  "Path Absolute =
     (if Absolute = [] then Inl (Construction ''Absolute paths must not be empty.'')
      else if \<not> IsAbsolute Absolute
        then Inl (Construction ''Base paths must be constructed with absolute paths.'')
      else Path_loop Absolute PathStringIterator_init [])"

subsection \<open>Path::AsAbsoluteString\<close>

text \<open>\<^verbatim>\<open>Out << u8"/"\<close> for the empty sequence, then \<^verbatim>\<open>Out << u8"/" << Part\<close> for each part.\<close>

definition AsAbsoluteString :: "PartCollection \<Rightarrow> string" where
  "AsAbsoluteString Parts =
     foldl (\<lambda>Out Part. Out @ ''/'' @ Part) (if Parts = [] then ''/'' else []) Parts"

subsection \<open>Path::FindCommonRoot and Path::AsRelativeString\<close>

text \<open>
  The iterators \<^verbatim>\<open>LocalPart\<close> and \<^verbatim>\<open>OtherPart\<close> are positions in \<^verbatim>\<open>Parts\<close> and
  \<^verbatim>\<open>OtherParts\<close>, \<^verbatim>\<open>end()\<close> the length. The function returns \<^verbatim>\<open>Out\<close> and, through its
  reference parameters, the two positions where it stopped.
\<close>

function FindCommonRoot ::
  "PartCollection \<Rightarrow> PartCollection \<Rightarrow> nat \<Rightarrow> nat \<Rightarrow> PartCollection \<Rightarrow> PartCollection \<times> nat \<times> nat" where
  "FindCommonRoot Parts OtherParts LocalPart OtherPart Out =
     (if LocalPart < length Parts \<and> OtherPart < length OtherParts then
        (if Parts ! LocalPart \<noteq> OtherParts ! OtherPart then (Out, LocalPart, OtherPart)
         else FindCommonRoot Parts OtherParts (Suc LocalPart) (Suc OtherPart)
                (Out @ [Parts ! LocalPart]))
      else (Out, LocalPart, OtherPart))"
  by pat_completeness auto
termination
  by (relation "measure (\<lambda>(Parts, OtherParts, LocalPart, OtherPart, Out). length Parts - LocalPart)")
     auto

declare FindCommonRoot.simps [simp del]

text \<open>The lambda \<^verbatim>\<open>AppendPart\<close> on its captured \<^verbatim>\<open>Out\<close> and \<^verbatim>\<open>First\<close>.\<close>

definition AppendPart :: "string \<times> bool \<Rightarrow> string \<Rightarrow> string \<times> bool" where
  "AppendPart captured Part =
     (case captured of (Out, First) \<Rightarrow>
        if First then (Out @ Part, False) else (Out @ ''/'' @ Part, False))"

definition AsRelativeString :: "PartCollection \<Rightarrow> PartCollection \<Rightarrow> string" where
  "AsRelativeString Parts From =
     (case FindCommonRoot Parts From 0 0 [] of
        (_, HerePart, FromPart) \<Rightarrow>
          fst (fold (\<lambda>i captured. AppendPart captured (Parts ! i)) [HerePart..<length Parts]
                (fold (\<lambda>i captured. AppendPart captured ''..'') [FromPart..<length From]
                   ([], True))))"

definition DirectoryPath_FindCommonRoot :: "PartCollection \<Rightarrow> PartCollection \<Rightarrow> PartCollection" where
  "DirectoryPath_FindCommonRoot Parts Other = fst (FindCommonRoot Parts Other 0 0 [])"

subsection \<open>FilePath and DirectoryPath\<close>

text \<open>
  Both classes hold nothing but the \<^verbatim>\<open>Parts\<close> of their base \<^verbatim>\<open>Path\<close>. \<^verbatim>\<open>getcwd\<close> is the
  result of the system call of that name: the buffer, or \<open>None\<close> when it fails.
\<close>

definition FilePath :: "string \<Rightarrow> error + PartCollection" where
  "FilePath Absolute = Path Absolute"

definition DirectoryPath :: "string \<Rightarrow> error + PartCollection" where
  "DirectoryPath Absolute = Path Absolute"

definition LocateWorkingDirectory :: "string option \<Rightarrow> error + PartCollection" where
  "LocateWorkingDirectory getcwd =
     (case getcwd of
        None \<Rightarrow> Inl (System (''Couldn'' @ [CHR 0x27] @ ''t obtain working directory!''))
      | Some WorkingDirectoryBuffer \<Rightarrow> DirectoryPath WorkingDirectoryBuffer)"

definition FilePath_Qualify :: "string option \<Rightarrow> string \<Rightarrow> error + PartCollection" where
  "FilePath_Qualify getcwd RawPath =
     (if IsAbsolute RawPath then FilePath RawPath
      else (case LocateWorkingDirectory getcwd of
              Inl e \<Rightarrow> Inl e
            | Inr wd \<Rightarrow> FilePath (AsAbsoluteString wd @ ''/'' @ RawPath)))"

text \<open>
  \<^verbatim>\<open>Parts.back()\<close> and \<^verbatim>\<open>--Parts.end()\<close> on an empty container are undefined; the model
  returns \<open>UndefinedBehaviour\<close> there.
\<close>

definition File :: "PartCollection \<Rightarrow> error + string" where
  "File Parts = (if Parts = [] then Inl UndefinedBehaviour else Inr (last Parts))"

definition Directory :: "PartCollection \<Rightarrow> error + PartCollection" where
  "Directory Parts = (if Parts = [] then Inl UndefinedBehaviour else Inr (butlast Parts))"

definition IsRoot :: "PartCollection \<Rightarrow> bool" where
  "IsRoot Parts = (Parts = [])"

definition Exit :: "PartCollection \<Rightarrow> error + PartCollection" where
  "Exit Parts = (if IsRoot Parts then Inl AssertionFailed else Inr (butlast Parts))"

definition Enter :: "PartCollection \<Rightarrow> string \<Rightarrow> PartCollection" where
  "Enter Parts DirectoryName = Parts @ [DirectoryName]"

definition Select :: "PartCollection \<Rightarrow> string \<Rightarrow> PartCollection" where
  "Select Parts Filename = Parts @ [Filename]"

subsection \<open>Directory listings\<close>

text \<open>
  The file system is what \<^verbatim>\<open>opendir\<close> and \<^verbatim>\<open>readdir\<close> show of it: for the name of a
  directory, \<open>None\<close> when \<^verbatim>\<open>opendir\<close> returns \<^verbatim>\<open>nullptr\<close>, or the entries that \<^verbatim>\<open>readdir\<close>
  returns, in its order. Of \<^verbatim>\<open>d_type\<close> the code only asks whether it is \<^verbatim>\<open>DT_DIR\<close>. The file
  system stays as it is while the code runs: two listings of a directory are the same.
\<close>

datatype file_type = DT_DIR | DT_REG | DT_LNK | DT_UNKNOWN

record dirent =
  d_name :: string
  d_type :: file_type

type_synonym filesystem = "string \<Rightarrow> dirent list option"

text \<open>
  \<^verbatim>\<open>ProcessDirectoryContents\<close> threads the state of its callback \<^verbatim>\<open>Process\<close> through the
  entries: \<^verbatim>\<open>Process(Element, IsFile)\<close> is \<open>Process Element IsFile\<close>, a state transformer.
\<close>

definition ProcessDirectoryContents ::
  "filesystem \<Rightarrow> string \<Rightarrow> (string \<Rightarrow> bool \<Rightarrow> 's \<Rightarrow> 's) \<Rightarrow> 's \<Rightarrow> 's" where
  "ProcessDirectoryContents fs DirectoryName Process s =
     (case fs DirectoryName of
        None \<Rightarrow> s
      | Some entries \<Rightarrow>
          fold (\<lambda>ElementInfo s.
                  if d_name ElementInfo = ''.'' \<or> d_name ElementInfo = ''..'' then s
                  else Process (d_name ElementInfo) (d_type ElementInfo \<noteq> DT_DIR) s)
            entries s)"

definition ListFiles :: "filesystem \<Rightarrow> PartCollection \<Rightarrow> string list" where
  "ListFiles fs Parts =
     ProcessDirectoryContents fs (AsAbsoluteString Parts)
       (\<lambda>Element IsFile Out. if IsFile then Out @ [Element] else Out) []"

definition ListDirectories :: "filesystem \<Rightarrow> PartCollection \<Rightarrow> string list" where
  "ListDirectories fs Parts =
     ProcessDirectoryContents fs (AsAbsoluteString Parts)
       (\<lambda>Element IsFile Out. if \<not> IsFile then Out @ [Element] else Out) []"

subsection \<open>DirectoryPath::Walk\<close>

text \<open>
  The locals of \<^verbatim>\<open>Walk\<close>: the list \<^verbatim>\<open>Transitions\<close>, the cursor \<^verbatim>\<open>Marker\<close> (here
  \<open>WalkMarker\<close>, the iterator's member having the name) and, for the effect of the
  callback, the sequence \<open>Processed\<close> of the file paths \<^verbatim>\<open>Process\<close> has been called with.
\<close>

record walk_state =
  Transitions :: "string list"
  WalkMarker :: PartCollection
  Processed :: "PartCollection list"

definition ProcessFiles :: "filesystem \<Rightarrow> walk_state \<Rightarrow> walk_state" where
  "ProcessFiles fs st =
     st\<lparr>Processed := Processed st @ map (Select (WalkMarker st)) (ListFiles fs (WalkMarker st))\<rparr>"

definition QueueNewTransitions :: "filesystem \<Rightarrow> walk_state \<Rightarrow> walk_state" where
  "QueueNewTransitions fs st =
     st\<lparr>Transitions := ListDirectories fs (WalkMarker st) @ Transitions st\<rparr>"

text \<open>The body of the loop, after \<^verbatim>\<open>NextTransition\<close> has been popped from the front.\<close>

definition Walk_body :: "filesystem \<Rightarrow> string \<Rightarrow> walk_state \<Rightarrow> error + walk_state" where
  "Walk_body fs NextTransition st =
     (if NextTransition = [] then
        (case Exit (WalkMarker st) of
           Inl e \<Rightarrow> Inl e
         | Inr Parts \<Rightarrow> Inr (st\<lparr>WalkMarker := Parts\<rparr>))
      else
        Inr (ProcessFiles fs (QueueNewTransitions fs
               (st\<lparr>WalkMarker := Enter (WalkMarker st) NextTransition,
                   Transitions := [] # Transitions st\<rparr>))))"

text \<open>
  The loop may run forever (a directory tree need not be finite as the listings show
  it): \<open>None\<close> is the walk that does not return.
\<close>

partial_function (option) Walk_loop :: "filesystem \<Rightarrow> walk_state \<Rightarrow> (error + walk_state) option" where
  "Walk_loop fs st =
     (case Transitions st of
        [] \<Rightarrow> Some (Inr st)
      | NextTransition # rest \<Rightarrow>
          (case Walk_body fs NextTransition (st\<lparr>Transitions := rest\<rparr>) of
             Inl e \<Rightarrow> Some (Inl e)
           | Inr st' \<Rightarrow> Walk_loop fs st'))"

declare Walk_loop.simps [code]

definition Walk_init :: "filesystem \<Rightarrow> PartCollection \<Rightarrow> walk_state" where
  "Walk_init fs this =
     QueueNewTransitions fs (ProcessFiles fs \<lparr>Transitions = [], WalkMarker = this, Processed = []\<rparr>)"

definition Walk :: "filesystem \<Rightarrow> PartCollection \<Rightarrow> (error + walk_state) option" where
  "Walk fs this = Walk_loop fs (Walk_init fs this)"

section \<open>The notions of the specification, and examples\<close>

text \<open>
  The specification's SegmentTokenizer: the substrings between separators; consecutive
  separators give empty tokens, a trailing separator gives a final empty token.
\<close>

fun spec_tokens :: "string \<Rightarrow> string list" where
  "spec_tokens [] = [[]]"
| "spec_tokens (c # cs) =
     (if c = CHR ''/'' then [] # spec_tokens cs
      else (case spec_tokens cs of [] \<Rightarrow> [[c]] | t # ts \<Rightarrow> (c # t) # ts))"

text \<open>
  The specification's PathNormalizer, left to right over the tokens: an empty token and
  \<^verbatim>\<open>.\<close> are discarded, \<^verbatim>\<open>..\<close> pops the most recently pushed segment and fails on the
  empty stack, any other token is pushed.
\<close>

fun spec_normalize :: "PartCollection \<Rightarrow> string list \<Rightarrow> error + PartCollection" where
  "spec_normalize stack [] = Inr stack"
| "spec_normalize stack (t # ts) =
     (if t = [] then spec_normalize stack ts
      else if t = ''..'' then
        (if stack = [] then Inl (Construction ''.. directory specified at root level!'')
         else spec_normalize (butlast stack) ts)
      else if t = ''.'' then spec_normalize stack ts
      else spec_normalize (stack @ [t]) ts)"

text \<open>
  Full normalization of a segment sequence, in the specification's words: no \<^verbatim>\<open>.\<close> or
  \<^verbatim>\<open>..\<close> tokens and no empty tokens.
\<close>

definition fully_normalized :: "PartCollection \<Rightarrow> bool" where
  "fully_normalized Parts = (\<forall>Part \<in> set Parts. Part \<noteq> [] \<and> Part \<noteq> ''.'' \<and> Part \<noteq> ''..'')"

text \<open>
  The specification's root escape: reading the tokens left to right with the height of
  the segment stack, some \<^verbatim>\<open>..\<close> token arrives when the height is 0.
\<close>

fun root_escape :: "nat \<Rightarrow> string list \<Rightarrow> bool" where
  "root_escape depth [] = False"
| "root_escape depth (t # ts) =
     (if t = [] \<or> t = ''.'' then root_escape depth ts
      else if t = ''..'' then depth = 0 \<or> root_escape (depth - 1) ts
      else root_escape (Suc depth) ts)"

text \<open>
  The specification's separator-joined tokens: a separator between any two neighbours,
  none before the first and none after the last.
\<close>

fun join_sep :: "string list \<Rightarrow> string" where
  "join_sep [] = []"
| "join_sep [t] = t"
| "join_sep (t # u # ts) = t @ ''/'' @ join_sep (u # ts)"

text \<open>
  A sequence of calls on a DirectoryPath cursor: \<^verbatim>\<open>Enter\<close> and \<^verbatim>\<open>Exit\<close> move it,
  \<^verbatim>\<open>Select\<close> leaves it and returns a FilePath. \<open>nav_calls\<close> runs the calls in order and
  returns the cursor with the FilePaths selected on the way, or the first failure.
\<close>

datatype nav_call = CallEnter string | CallExit | CallSelect string

fun nav_calls :: "PartCollection \<Rightarrow> nav_call list \<Rightarrow> error + PartCollection \<times> PartCollection list" where
  "nav_calls Parts [] = Inr (Parts, [])"
| "nav_calls Parts (CallEnter DirectoryName # calls) = nav_calls (Enter Parts DirectoryName) calls"
| "nav_calls Parts (CallExit # calls) =
     (case Exit Parts of Inl e \<Rightarrow> Inl e | Inr Parts' \<Rightarrow> nav_calls Parts' calls)"
| "nav_calls Parts (CallSelect Filename # calls) =
     (case nav_calls Parts calls of
        Inl e \<Rightarrow> Inl e
      | Inr (Parts', selected) \<Rightarrow> Inr (Parts', Select Parts Filename # selected))"

text \<open>The argument of a call is non-empty and neither \<^verbatim>\<open>.\<close> nor \<^verbatim>\<open>..\<close>.\<close>

fun plain_argument :: "nav_call \<Rightarrow> bool" where
  "plain_argument (CallEnter DirectoryName) =
     (DirectoryName \<noteq> [] \<and> DirectoryName \<noteq> ''.'' \<and> DirectoryName \<noteq> ''..'')"
| "plain_argument CallExit = True"
| "plain_argument (CallSelect Filename) =
     (Filename \<noteq> [] \<and> Filename \<noteq> ''.'' \<and> Filename \<noteq> ''..'')"

text \<open>
  An example: \<^verbatim>\<open>/R\<close> holds the files \<^verbatim>\<open>f1\<close> and \<^verbatim>\<open>f3\<close> and the directories \<^verbatim>\<open>U\<close>, which
  cannot be opened, and \<^verbatim>\<open>D\<close>, which holds the file \<^verbatim>\<open>f2\<close>.
\<close>

definition example_fs :: filesystem where
  "example_fs = map_of
     [(''/R'', [\<lparr>d_name = ''.'', d_type = DT_DIR\<rparr>, \<lparr>d_name = ''..'', d_type = DT_DIR\<rparr>,
                \<lparr>d_name = ''f1'', d_type = DT_REG\<rparr>, \<lparr>d_name = ''U'', d_type = DT_DIR\<rparr>,
                \<lparr>d_name = ''D'', d_type = DT_DIR\<rparr>, \<lparr>d_name = ''f3'', d_type = DT_REG\<rparr>]),
      (''/R/D'', [\<lparr>d_name = ''.'', d_type = DT_DIR\<rparr>, \<lparr>d_name = ''..'', d_type = DT_DIR\<rparr>,
                  \<lparr>d_name = ''f2'', d_type = DT_REG\<rparr>])]"

text \<open>The entries of a directory but \<^verbatim>\<open>.\<close> and \<^verbatim>\<open>..\<close>; none when it cannot be opened.\<close>

definition listed :: "filesystem \<Rightarrow> string \<Rightarrow> dirent list" where
  "listed fs DirectoryName =
     (case fs DirectoryName of
        None \<Rightarrow> []
      | Some entries \<Rightarrow> filter (\<lambda>e. d_name e \<noteq> ''.'' \<and> d_name e \<noteq> ''..'') entries)"

text \<open>
  A finite directory tree: the contents of a directory are its entries in the order of
  the listing, a file with its name or a directory with its name and its own contents.
\<close>

datatype entry = FileEntry string | DirEntry string "entry list"

fun entry_kind :: "entry \<Rightarrow> string \<times> bool" where
  "entry_kind (FileEntry Name) = (Name, False)"
| "entry_kind (DirEntry Name contents) = (Name, True)"

fun file_names :: "entry list \<Rightarrow> string list" where
  "file_names [] = []"
| "file_names (FileEntry Name # es) = Name # file_names es"
| "file_names (DirEntry Name contents # es) = file_names es"

fun dir_names :: "entry list \<Rightarrow> string list" where
  "dir_names [] = []"
| "dir_names (FileEntry Name # es) = dir_names es"
| "dir_names (DirEntry Name contents # es) = Name # dir_names es"

text \<open>
  The file system shows the tree \<open>es\<close> at the directory \<open>Parts\<close>: the listing of \<open>Parts\<close>
  without \<^verbatim>\<open>.\<close> and \<^verbatim>\<open>..\<close> has the names and kinds of \<open>es\<close> in their order, and so on in
  every subdirectory. The name of a directory is not empty, as no name that \<^verbatim>\<open>readdir\<close>
  returns is.
\<close>

fun tree_at :: "filesystem \<Rightarrow> PartCollection \<Rightarrow> entry list \<Rightarrow> bool"
  and subtrees_at :: "filesystem \<Rightarrow> PartCollection \<Rightarrow> entry list \<Rightarrow> bool" where
  "tree_at fs Parts es =
     (map (\<lambda>e. (d_name e, d_type e = DT_DIR)) (listed fs (AsAbsoluteString Parts)) =
        map entry_kind es \<and>
      subtrees_at fs Parts es)"
| "subtrees_at fs Parts [] = True"
| "subtrees_at fs Parts (FileEntry Name # es) = subtrees_at fs Parts es"
| "subtrees_at fs Parts (DirEntry Name contents # es) =
     (Name \<noteq> [] \<and> tree_at fs (Parts @ [Name]) contents \<and> subtrees_at fs Parts es)"

text \<open>
  The order of the specification: the files of a directory first, in listing order, then
  its subdirectories one after the other in listing order, each walked in the same way.
\<close>

fun walk_order :: "PartCollection \<Rightarrow> entry list \<Rightarrow> PartCollection list"
  and walk_order_subdirectories :: "PartCollection \<Rightarrow> entry list \<Rightarrow> PartCollection list" where
  "walk_order Parts es =
     map (Select Parts) (file_names es) @ walk_order_subdirectories Parts es"
| "walk_order_subdirectories Parts [] = []"
| "walk_order_subdirectories Parts (FileEntry Name # es) = walk_order_subdirectories Parts es"
| "walk_order_subdirectories Parts (DirEntry Name contents # es) =
     walk_order (Parts @ [Name]) contents @ walk_order_subdirectories Parts es"

definition example_tree :: "entry list" where
  "example_tree =
     [FileEntry ''f1'', DirEntry ''U'' [], DirEntry ''D'' [FileEntry ''f2''], FileEntry ''f3'']"

text \<open>
  The states of the locals of \<^verbatim>\<open>Walk\<close> at the head of its loop: the state after the two
  calls before the loop, and the state after a pass of the loop body from such a state.
\<close>

inductive walk_reach :: "filesystem \<Rightarrow> PartCollection \<Rightarrow> walk_state \<Rightarrow> bool"
  for fs :: filesystem and this :: PartCollection where
  start: "walk_reach fs this (Walk_init fs this)"
| step: "walk_reach fs this st \<Longrightarrow> Transitions st = NextTransition # rest \<Longrightarrow>
         Walk_body fs NextTransition (st\<lparr>Transitions := rest\<rparr>) = Inr st' \<Longrightarrow>
         walk_reach fs this st'"

text \<open>
  The step invariant of the specification, for every pending action in turn. An ascend
  (the empty transition) finds the marker below the root of the walk and leaves it one
  level up; a descend finds the marker at the directory whose listing holds its target,
  and the marker is there again when the next pending action runs, the descend being
  paired with an ascend; after the last pending action the marker is the root of the walk.
\<close>

fun pending_ok :: "filesystem \<Rightarrow> PartCollection \<Rightarrow> PartCollection \<Rightarrow> string list \<Rightarrow> bool" where
  "pending_ok fs root marker [] = (marker = root)"
| "pending_ok fs root marker (action # pending) =
     (if action = [] then marker \<noteq> [] \<and> pending_ok fs root (butlast marker) pending
      else action \<in> set (ListDirectories fs marker) \<and> pending_ok fs root marker pending)"

text \<open>
  A well-formed tree, as a file system holds it: every name is a segment (non-empty,
  neither \<^verbatim>\<open>.\<close> nor \<^verbatim>\<open>..\<close>, without separator) and the names of a directory are distinct.
\<close>

fun entry_name :: "entry \<Rightarrow> string" where
  "entry_name (FileEntry Name) = Name"
| "entry_name (DirEntry Name contents) = Name"

fun entry_dirent :: "entry \<Rightarrow> dirent" where
  "entry_dirent (FileEntry Name) = \<lparr>d_name = Name, d_type = DT_REG\<rparr>"
| "entry_dirent (DirEntry Name contents) = \<lparr>d_name = Name, d_type = DT_DIR\<rparr>"

definition plain_name :: "string \<Rightarrow> bool" where
  "plain_name Name =
     (Name \<noteq> [] \<and> Name \<noteq> ''.'' \<and> Name \<noteq> ''..'' \<and> CHR ''/'' \<notin> set Name)"

fun well_formed :: "entry list \<Rightarrow> bool" where
  "well_formed [] = True"
| "well_formed (FileEntry Name # es) =
     (plain_name Name \<and> Name \<notin> set (map entry_name es) \<and> well_formed es)"
| "well_formed (DirEntry Name contents # es) =
     (plain_name Name \<and> Name \<notin> set (map entry_name es) \<and> well_formed contents \<and>
      well_formed es)"

text \<open>
  The file system that holds a tree from its root directory: \<^verbatim>\<open>opendir\<close> resolves the name of
  a directory as \<open>Path\<close> does and finds its contents in the tree, and \<^verbatim>\<open>readdir\<close> returns
  \<^verbatim>\<open>.\<close>, \<^verbatim>\<open>..\<close> and the entries in their order. Neither a file nor a name that is not in the
  tree can be opened.
\<close>

fun find_dir :: "entry list \<Rightarrow> string \<Rightarrow> entry list option" where
  "find_dir [] Name = None"
| "find_dir (FileEntry Name' # es) Name = find_dir es Name"
| "find_dir (DirEntry Name' contents # es) Name =
     (if Name' = Name then Some contents else find_dir es Name)"

fun lookup_dir :: "entry list \<Rightarrow> PartCollection \<Rightarrow> entry list option" where
  "lookup_dir es [] = Some es"
| "lookup_dir es (Part # Parts) =
     (case find_dir es Part of None \<Rightarrow> None | Some contents \<Rightarrow> lookup_dir contents Parts)"

definition fs_of_tree :: "entry list \<Rightarrow> filesystem" where
  "fs_of_tree root DirectoryName =
     (case Path DirectoryName of
        Inl e \<Rightarrow> None
      | Inr Parts \<Rightarrow>
          (case lookup_dir root Parts of
             None \<Rightarrow> None
           | Some es \<Rightarrow>
               Some (\<lparr>d_name = ''.'', d_type = DT_DIR\<rparr> # \<lparr>d_name = ''..'', d_type = DT_DIR\<rparr> #
                     map entry_dirent es)))"

section \<open>Path construction\<close>

lemma takeWhile_sep_less:
  "x \<in> set r \<Longrightarrow> length (takeWhile (\<lambda>c. c \<noteq> x) r) < length r"
  by (induction r) auto

lemma tokens_not_Nil: "spec_tokens s \<noteq> []"
  by (induction s) (auto split: list.splits)

lemma tokens_no_sep: "CHR ''/'' \<notin> set s \<Longrightarrow> spec_tokens s = [s]"
  by (induction s) auto

lemma tokens_sep:
  "CHR ''/'' \<in> set s \<Longrightarrow>
   spec_tokens s = takeWhile (\<lambda>c. c \<noteq> CHR ''/'') s # spec_tokens (drop (Suc (length (takeWhile (\<lambda>c. c \<noteq> CHR ''/'') s))) s)"
  by (induction s) (auto simp: tokens_no_sep split: list.splits)

lemma Path_loop_npos: "Path_loop s \<lparr>PreviousMarker = p, Marker = None\<rparr> Parts = Inr Parts"
  by (simp add: Path_loop.simps FindNext_def)

lemma FindNext_Read_sep:
  assumes "CHR ''/'' \<in> set (drop m s)"
  shows "FindNext s \<lparr>PreviousMarker = p, Marker = Some m\<rparr> =
           (True, \<lparr>PreviousMarker = m,
                   Marker = Some (Suc (m + length (takeWhile (\<lambda>c. c \<noteq> CHR ''/'') (drop m s))))\<rparr>)"
    and "Read s \<lparr>PreviousMarker = m,
                   Marker = Some (Suc (m + length (takeWhile (\<lambda>c. c \<noteq> CHR ''/'') (drop m s))))\<rparr> =
           Inr (takeWhile (\<lambda>c. c \<noteq> CHR ''/'') (drop m s))"
  using assms
   apply (simp add: FindNext_def find_sep_def)
  apply (simp add: Read_def)
  by (metis takeWhile_eq_take)

lemma FindNext_Read_last:
  assumes "CHR ''/'' \<notin> set (drop m s)"
  shows "FindNext s \<lparr>PreviousMarker = p, Marker = Some m\<rparr> =
           (True, \<lparr>PreviousMarker = m, Marker = None\<rparr>)"
    and "Read s \<lparr>PreviousMarker = m, Marker = None\<rparr> = Inr (drop m s)"
  using assms by (simp_all add: FindNext_def find_sep_def Read_def)

lemma Path_loop_tokens:
  "m \<le> length s \<Longrightarrow>
   Path_loop s \<lparr>PreviousMarker = p, Marker = Some m\<rparr> Parts = spec_normalize Parts (spec_tokens (drop m s))"
proof (induction "length s - m" arbitrary: m p Parts rule: less_induct)
  case less
  let ?r = "drop m s"
  show ?case
  proof (cases "CHR ''/'' \<in> set ?r")
    case False
    then have tok: "spec_tokens ?r = [?r]" by (rule tokens_no_sep)
    show ?thesis
      by (subst Path_loop.simps)
         (simp add: FindNext_Read_last [OF False] tok Path_loop_npos)
  next
    case True
    define Part where "Part = takeWhile (\<lambda>c. c \<noteq> CHR ''/'') ?r"
    define m' where "m' = Suc (m + length Part)"
    from True have k: "length Part < length ?r"
      unfolding Part_def by (rule takeWhile_sep_less)
    then have le: "m' \<le> length s" by (simp add: m'_def)
    have lt: "length s - m' < length s - m" using k by (simp add: m'_def)
    have tok: "spec_tokens ?r = Part # spec_tokens (drop m' s)"
      by (subst tokens_sep [OF True]) (simp add: add.commute Part_def m'_def)
    have next_it: "FindNext s \<lparr>PreviousMarker = p, Marker = Some m\<rparr> =
        (True, \<lparr>PreviousMarker = m, Marker = Some m'\<rparr>)"
      and rd: "Read s \<lparr>PreviousMarker = m, Marker = Some m'\<rparr> = Inr Part"
      using FindNext_Read_sep [OF True] by (simp_all add: Part_def m'_def)
    have IH: "Path_loop s \<lparr>PreviousMarker = m, Marker = Some m'\<rparr> X =
        spec_normalize X (spec_tokens (drop m' s))" for X
      by (rule less.hyps [OF lt le])
    show ?thesis
      by (subst Path_loop.simps) (simp add: next_it rd tok IH)
  qed
qed

lemma Path_normalize:
  "Path s =
     (if s = [] then Inl (Construction ''Absolute paths must not be empty.'')
      else if \<not> IsAbsolute s
        then Inl (Construction ''Base paths must be constructed with absolute paths.'')
      else spec_normalize [] (spec_tokens s))"
  by (simp add: Path_def PathStringIterator_init_def Path_loop_tokens)

lemma tokens_sep_free: "t \<in> set (spec_tokens s) \<Longrightarrow> CHR ''/'' \<notin> set t"
  by (induction s arbitrary: t) (auto split: if_splits list.splits)

lemma normalize_segments:
  "spec_normalize stack ts = Inr Parts \<Longrightarrow> \<forall>x \<in> set stack. P x \<Longrightarrow>
   \<forall>t \<in> set ts. t \<noteq> [] \<and> t \<noteq> ''.'' \<and> t \<noteq> ''..'' \<longrightarrow> P t \<Longrightarrow> \<forall>x \<in> set Parts. P x"
proof (induction ts arbitrary: stack)
  case Nil
  then show ?case by simp
next
  case (Cons t ts)
  have rest: "\<forall>t \<in> set ts. t \<noteq> [] \<and> t \<noteq> ''.'' \<and> t \<noteq> ''..'' \<longrightarrow> P t"
    using Cons.prems(3) by simp
  consider (skip) "t = [] \<or> t = ''.''" | (pop) "t = ''..''"
    | (push) "t \<noteq> []" "t \<noteq> ''.''" "t \<noteq> ''..''"
    by blast
  then show ?case
  proof cases
    case skip
    with Cons.prems(1) have "spec_normalize stack ts = Inr Parts"
      by (auto split: if_splits)
    then show ?thesis using Cons.prems(2) rest by (rule Cons.IH)
  next
    case pop
    with Cons.prems(1) have "spec_normalize (butlast stack) ts = Inr Parts"
      by (simp split: if_splits)
    moreover have "\<forall>x \<in> set (butlast stack). P x"
      using Cons.prems(2) by (blast dest: in_set_butlastD)
    ultimately show ?thesis using rest by (rule Cons.IH)
  next
    case push
    with Cons.prems(1) have "spec_normalize (stack @ [t]) ts = Inr Parts"
      by simp
    moreover have "\<forall>x \<in> set (stack @ [t]). P x"
      using Cons.prems(2,3) push by simp
    ultimately show ?thesis using rest by (rule Cons.IH)
  qed
qed

lemma normalize_error:
  "spec_normalize stack ts = Inl e \<longleftrightarrow>
     e = Construction ''.. directory specified at root level!'' \<and> root_escape (length stack) ts"
proof (induction ts arbitrary: stack)
  case Nil
  then show ?case by simp
next
  case (Cons t ts)
  consider (skip) "t = [] \<or> t = ''.''" | (pop) "t = ''..''"
    | (push) "t \<noteq> []" "t \<noteq> ''.''" "t \<noteq> ''..''"
    by blast
  then show ?case
  proof cases
    case skip
    then show ?thesis using Cons.IH [of stack] by auto
  next
    case pop
    then show ?thesis using Cons.IH [of "butlast stack"] by auto
  next
    case push
    then show ?thesis using Cons.IH [of "stack @ [t]"] by simp
  qed
qed

lemma Path_Inr_normalize:
  "Path s = Inr Parts \<Longrightarrow> spec_normalize [] (spec_tokens s) = Inr Parts"
  by (simp add: Path_normalize split: if_splits)

lemma Path_segments:
  assumes "Path s = Inr Parts"
  shows "\<forall>Part \<in> set Parts. Part \<noteq> [] \<and> Part \<noteq> ''.'' \<and> Part \<noteq> ''..'' \<and> CHR ''/'' \<notin> set Part"
proof -
  from assms have "spec_normalize [] (spec_tokens s) = Inr Parts"
    by (rule Path_Inr_normalize)
  then show ?thesis
  proof (rule normalize_segments)
    show "\<forall>x \<in> set []. x \<noteq> [] \<and> x \<noteq> ''.'' \<and> x \<noteq> ''..'' \<and> CHR ''/'' \<notin> set x"
      by simp
    show "\<forall>t \<in> set (spec_tokens s). t \<noteq> [] \<and> t \<noteq> ''.'' \<and> t \<noteq> ''..'' \<longrightarrow>
        t \<noteq> [] \<and> t \<noteq> ''.'' \<and> t \<noteq> ''..'' \<and> CHR ''/'' \<notin> set t"
      using tokens_sep_free by blast
  qed
qed

lemma Path_example_dots: "Path ''/a/./b/../c'' = Inr [''a'', ''c'']"
  by (simp add: Path_normalize IsAbsolute_def)

lemma Path_example_plain: "Path ''/a/c'' = Inr [''a'', ''c'']"
  by (simp add: Path_normalize IsAbsolute_def)

text \<open>
  C2. Constructing a Path from a valid absolute string discards every empty token and
  every \<^verbatim>\<open>.\<close> token and resolves every \<^verbatim>\<open>..\<close> token by popping the most recently pushed
  segment: the result of the iterator loop is the result of the specification's normalizer
  on the specification's tokens, and it holds no \<^verbatim>\<open>.\<close>, \<^verbatim>\<open>..\<close> or empty segment. The inputs
  \<^verbatim>\<open>/a/./b/../c\<close> and \<^verbatim>\<open>/a/c\<close> construct the same segment sequence.
\<close>

theorem Path_fully_normalized:
  "(Path Absolute = Inr Parts \<longrightarrow>
      spec_normalize [] (spec_tokens Absolute) = Inr Parts \<and> fully_normalized Parts) \<and>
   Path ''/a/./b/../c'' = Inr [''a'', ''c''] \<and> Path ''/a/c'' = Inr [''a'', ''c'']"
proof (intro conjI impI)
  assume ok: "Path Absolute = Inr Parts"
  then show "spec_normalize [] (spec_tokens Absolute) = Inr Parts"
    by (rule Path_Inr_normalize)
  from Path_segments [OF ok] show "fully_normalized Parts"
    unfolding fully_normalized_def by blast
qed (rule Path_example_dots, rule Path_example_plain)

text \<open>
  C3. Path construction raises a Construction error if and only if the input string is
  empty, or it fails the absolute-prefix predicate, or a \<^verbatim>\<open>..\<close> token attempts to pop when
  the segment stack is empty; each case has its own message, the error is the result of
  the construction, and no other input raises (in particular the assertion of
  \<^verbatim>\<open>PathStringIterator::Read\<close> never fails there).
\<close>

theorem Path_error_iff:
  "Path Absolute = Inl e \<longleftrightarrow>
     Absolute = [] \<and> e = Construction ''Absolute paths must not be empty.'' \<or>
     Absolute \<noteq> [] \<and> \<not> IsAbsolute Absolute \<and>
       e = Construction ''Base paths must be constructed with absolute paths.'' \<or>
     IsAbsolute Absolute \<and> root_escape 0 (spec_tokens Absolute) \<and>
       e = Construction ''.. directory specified at root level!''"
proof (cases "Absolute = []")
  case True
  then show ?thesis by (simp add: Path_normalize IsAbsolute_def eq_commute [of e])
next
  case False
  show ?thesis
  proof (cases "IsAbsolute Absolute")
    case True
    with False show ?thesis
      by (simp add: Path_normalize normalize_error conj_commute)
  next
    case nabs: False
    with False show ?thesis by (simp add: Path_normalize eq_commute [of e])
  qed
qed

theorem Path_fully_normalized_witness:
  "Path ''/x/../y//z/.'' = Inr [''y'', ''z''] \<and>
   spec_normalize [] (spec_tokens ''/x/../y//z/.'') = Inr [''y'', ''z''] \<and>
   fully_normalized [''y'', ''z'']"
proof -
  have "Path ''/x/../y//z/.'' = Inr [''y'', ''z'']"
    by (simp add: Path_normalize IsAbsolute_def)
  with Path_fully_normalized [of "''/x/../y//z/.''" "[''y'', ''z'']"] show ?thesis by blast
qed

theorem Path_error_iff_witness:
  "Path ''/../x'' = Inl (Construction ''.. directory specified at root level!'') \<and>
   Path [] = Inl (Construction ''Absolute paths must not be empty.'') \<and>
   Path ''a/b'' = Inl (Construction ''Base paths must be constructed with absolute paths.'') \<and>
   Path ''/a/../b'' \<noteq> Inl (Construction ''.. directory specified at root level!'')"
  using Path_error_iff [of "''/../x''" "Construction ''.. directory specified at root level!''"]
    Path_error_iff [of "[]" "Construction ''Absolute paths must not be empty.''"]
    Path_error_iff [of "''a/b''" "Construction ''Base paths must be constructed with absolute paths.''"]
    Path_error_iff [of "''/a/../b''" "Construction ''.. directory specified at root level!''"]
  by (simp add: IsAbsolute_def)

lemma AsAbsoluteString_concat:
  "AsAbsoluteString Parts =
     (if Parts = [] then ''/'' else []) @ concat (map (\<lambda>Part. ''/'' @ Part) Parts)"
proof -
  have "foldl (\<lambda>Out Part. Out @ ''/'' @ Part) acc ps = acc @ concat (map (\<lambda>Part. ''/'' @ Part) ps)"
    for acc ps
    by (induction ps arbitrary: acc) simp_all
  then show ?thesis by (simp add: AsAbsoluteString_def)
qed

lemma tokens_append_joined:
  "CHR ''/'' \<notin> set x \<Longrightarrow> \<forall>p \<in> set ps. CHR ''/'' \<notin> set p \<Longrightarrow>
   spec_tokens (x @ concat (map (\<lambda>Part. ''/'' @ Part) ps)) = x # ps"
proof (induction ps arbitrary: x)
  case Nil
  then show ?case by (simp add: tokens_no_sep)
next
  case (Cons p ps)
  have "spec_tokens (x @ CHR ''/'' # r) = x # spec_tokens r" for r
    using Cons.prems(1) by (induction x) auto
  then show ?case using Cons.IH [of p] Cons.prems(2) by simp
qed

lemma normalize_segments_id:
  "\<forall>p \<in> set ps. p \<noteq> [] \<and> p \<noteq> ''.'' \<and> p \<noteq> ''..'' \<Longrightarrow>
   spec_normalize stack ps = Inr (stack @ ps)"
  by (induction ps arbitrary: stack) simp_all

lemma Path_AsAbsoluteString:
  assumes "\<forall>p \<in> set Parts. p \<noteq> [] \<and> p \<noteq> ''.'' \<and> p \<noteq> ''..'' \<and> CHR ''/'' \<notin> set p"
  shows "Path (AsAbsoluteString Parts) = Inr Parts"
proof (cases "Parts = []")
  case True
  then show ?thesis by (simp add: AsAbsoluteString_def Path_normalize IsAbsolute_def)
next
  case False
  then obtain p ps where Parts: "Parts = p # ps" by (cases Parts) auto
  have str: "AsAbsoluteString Parts = [] @ concat (map (\<lambda>Part. ''/'' @ Part) Parts)"
    using False by (simp add: AsAbsoluteString_concat)
  have "spec_tokens (AsAbsoluteString Parts) = [] # Parts"
    unfolding str using assms by (intro tokens_append_joined) simp_all
  moreover have "spec_normalize [] Parts = Inr ([] @ Parts)"
    using assms by (intro normalize_segments_id) blast
  moreover have "IsAbsolute (AsAbsoluteString Parts)" "AsAbsoluteString Parts \<noteq> []"
    by (simp_all add: AsAbsoluteString_concat Parts IsAbsolute_def)
  ultimately show ?thesis by (simp add: Path_normalize)
qed

text \<open>
  C4. For every Path constructed from a valid absolute string, constructing a new Path
  from its \<^verbatim>\<open>AsAbsoluteString\<close> result yields an equal segment sequence; the root Path is the
  empty segment sequence and stringifies to exactly \<^verbatim>\<open>/\<close>.
\<close>

theorem Path_AsAbsoluteString_roundtrip:
  "(Path Absolute = Inr Parts \<longrightarrow> Path (AsAbsoluteString Parts) = Inr Parts) \<and>
   Path ''/'' = Inr [] \<and> AsAbsoluteString [] = ''/''"
proof (intro conjI impI)
  assume "Path Absolute = Inr Parts"
  then show "Path (AsAbsoluteString Parts) = Inr Parts"
    by (intro Path_AsAbsoluteString Path_segments)
next
  show "Path ''/'' = Inr []" by (simp add: Path_normalize IsAbsolute_def)
  show "AsAbsoluteString [] = ''/''" by (simp add: AsAbsoluteString_def)
qed

theorem Path_AsAbsoluteString_roundtrip_witness:
  "Path ''/a/./b/../c'' = Inr [''a'', ''c''] \<and> AsAbsoluteString [''a'', ''c''] = ''/a/c'' \<and>
   Path ''/a/c'' = Inr [''a'', ''c'']"
proof -
  have str: "AsAbsoluteString [''a'', ''c''] = ''/a/c''"
    by (simp add: AsAbsoluteString_def)
  from Path_example_dots Path_AsAbsoluteString_roundtrip [of "''/a/./b/../c''" "[''a'', ''c'']"]
  have "Path (AsAbsoluteString [''a'', ''c'']) = Inr [''a'', ''c'']" by blast
  with Path_example_dots str show ?thesis by simp
qed

section \<open>Relative strings\<close>

lemma FindCommonRoot_prefix:
  "FindCommonRoot Parts Other i i Out =
     (let k = length (longest_common_prefix (drop i Parts) (drop i Other))
      in (Out @ take k (drop i Parts), i + k, i + k))"
proof (induction "length Parts - i" arbitrary: i Out)
  case 0
  then have "drop i Parts = []" by simp
  with 0 show ?case
    by (subst FindCommonRoot.simps) simp
next
  case (Suc n)
  then have i: "i < length Parts" by simp
  then have P: "drop i Parts = Parts ! i # drop (Suc i) Parts"
    by (simp add: Cons_nth_drop_Suc)
  show ?case
  proof (cases "i < length Other")
    case False
    then have "drop i Other = []" by simp
    with False show ?thesis
      by (subst FindCommonRoot.simps) simp
  next
    case True
    then have O: "drop i Other = Other ! i # drop (Suc i) Other"
      by (simp add: Cons_nth_drop_Suc)
    show ?thesis
    proof (cases "Parts ! i = Other ! i")
      case False
      with i True show ?thesis
        by (subst FindCommonRoot.simps) (simp add: P O)
    next
      case eq: True
      from Suc.hyps(2) have "n = length Parts - Suc i" by simp
      from Suc.hyps(1) [OF this] i True eq show ?thesis
        by (subst FindCommonRoot.simps) (simp add: P O Let_def)
    qed
  qed
qed

lemma join_sep_Cons: "join_sep (t # ts) = (if ts = [] then t else t @ ''/'' @ join_sep ts)"
  by (cases ts) simp_all

lemma AppendPart_fold:
  "fold (\<lambda>i captured. AppendPart captured (f i)) is (Out, First) =
     (if is = [] then (Out, First)
      else (Out @ (if First then [] else ''/'') @ join_sep (map f is), False))"
proof (induction "is" arbitrary: Out First)
  case Nil
  then show ?case by simp
next
  case (Cons i "is")
  have "fold (\<lambda>i captured. AppendPart captured (f i)) (i # is) (Out, First) =
      fold (\<lambda>i captured. AppendPart captured (f i)) is
        (Out @ (if First then [] else ''/'') @ f i, False)"
    by (simp add: AppendPart_def)
  also have "\<dots> = (Out @ (if First then [] else ''/'') @ join_sep (map f (i # is)), False)"
    unfolding Cons.IH by (simp add: join_sep_Cons del: join_sep.simps)
  finally show ?case by simp
qed

lemma join_sep_append:
  "join_sep (xs @ ys) =
     (if xs = [] then join_sep ys else if ys = [] then join_sep xs
      else join_sep xs @ ''/'' @ join_sep ys)"
  by (induction xs) (simp_all add: join_sep_Cons del: join_sep.simps)

lemma map_nth_upt_drop: "map ((!) xs) [k..<length xs] = drop k xs"
proof -
  have "drop k (map ((!) xs) [0..<length xs]) = map ((!) xs) [k..<length xs]"
    by (simp add: drop_map)
  then show ?thesis by (simp add: map_nth)
qed

lemma AsRelativeString_join:
  "AsRelativeString Parts From =
     (let k = length (longest_common_prefix Parts From)
      in join_sep (replicate (length From - k) ''..'' @ drop k Parts))"
proof -
  define k where "k = length (longest_common_prefix Parts From)"
  have fcr: "FindCommonRoot Parts From 0 0 [] = (take k Parts, k, k)"
    by (simp add: FindCommonRoot_prefix k_def Let_def)
  have ups: "map (\<lambda>i. ''..'') [k..<length From] = replicate (length From - k) ''..''"
    by (simp add: map_replicate_const)
  have here: "map (\<lambda>i. Parts ! i) [k..<length Parts] = drop k Parts"
    by (rule map_nth_upt_drop)
  have kP: "k \<le> length Parts" and kF: "k \<le> length From"
    unfolding k_def
    using prefix_length_le [OF longest_common_prefix_prefix1 [of Parts From]]
      prefix_length_le [OF longest_common_prefix_prefix2 [of Parts From]] by simp_all
  show ?thesis
    unfolding AsRelativeString_def fcr k_def [symmetric] Let_def
    by (simp add: AppendPart_fold [where f = "\<lambda>i. ''..''"]
        AppendPart_fold [where f = "\<lambda>i. Parts ! i"] ups here join_sep_append)
qed

lemma join_sep_ends:
  "toks \<noteq> [] \<Longrightarrow> \<forall>t \<in> set toks. t \<noteq> [] \<Longrightarrow>
   join_sep toks \<noteq> [] \<and> hd (join_sep toks) = hd (hd toks) \<and>
   last (join_sep toks) = last (last toks)"
  by (induction toks rule: join_sep.induct) simp_all

lemma longest_common_prefix_stop:
  "length (longest_common_prefix xs ys) = length xs \<or>
   length (longest_common_prefix xs ys) = length ys \<or>
   xs ! length (longest_common_prefix xs ys) \<noteq> ys ! length (longest_common_prefix xs ys)"
  by (induction xs ys rule: longest_common_prefix.induct) auto

lemma longest_common_prefix_take:
  "take (length (longest_common_prefix xs ys)) xs = longest_common_prefix xs ys \<and>
   take (length (longest_common_prefix xs ys)) ys = longest_common_prefix xs ys"
  by (induction xs ys rule: longest_common_prefix.induct) auto

lemma longest_common_prefix_self: "longest_common_prefix xs xs = xs"
  by (induction xs) simp_all

text \<open>
  C5. For every Path \<open>Parts\<close> and DirectoryPath \<open>From\<close>, with \<open>k\<close> the length of their
  longest common segment prefix (found in lock-step by exact comparison of the segments,
  stopping at the first mismatch or when either sequence is exhausted),
  \<^verbatim>\<open>AsRelativeString\<close> emits one \<^verbatim>\<open>..\<close> per segment of \<open>From\<close> beyond index \<open>k\<close>, then the
  segments of \<open>Parts\<close> beyond index \<open>k\<close>, separator-joined; it is the empty string when the
  two sequences are equal, and otherwise, for segments that are non-empty and hold no
  separator, it neither begins nor ends with a separator.
\<close>

theorem AsRelativeString_common_prefix:
  fixes Parts From :: PartCollection
  defines "k \<equiv> length (longest_common_prefix Parts From)"
  shows "AsRelativeString Parts From =
           join_sep (replicate (length From - k) ''..'' @ drop k Parts) \<and>
         FindCommonRoot Parts From 0 0 [] = (take k Parts, k, k) \<and>
         take k Parts = take k From \<and>
         (k = length Parts \<or> k = length From \<or> Parts ! k \<noteq> From ! k) \<and>
         AsRelativeString Parts Parts = [] \<and>
         ((\<forall>Part \<in> set Parts. Part \<noteq> [] \<and> CHR ''/'' \<notin> set Part) \<and> Parts \<noteq> From \<longrightarrow>
            AsRelativeString Parts From \<noteq> [] \<and>
            hd (AsRelativeString Parts From) \<noteq> CHR ''/'' \<and>
            last (AsRelativeString Parts From) \<noteq> CHR ''/'')"
proof (intro conjI impI)
  show str: "AsRelativeString Parts From =
      join_sep (replicate (length From - k) ''..'' @ drop k Parts)"
    by (simp add: AsRelativeString_join k_def Let_def)
  show "FindCommonRoot Parts From 0 0 [] = (take k Parts, k, k)"
    by (simp add: FindCommonRoot_prefix k_def Let_def)
  show "take k Parts = take k From"
    unfolding k_def using longest_common_prefix_take [of Parts From] by simp
  show "k = length Parts \<or> k = length From \<or> Parts ! k \<noteq> From ! k"
    unfolding k_def by (rule longest_common_prefix_stop)
  show "AsRelativeString Parts Parts = []"
    by (simp add: AsRelativeString_join Let_def longest_common_prefix_self)
  assume seg: "(\<forall>Part \<in> set Parts. Part \<noteq> [] \<and> CHR ''/'' \<notin> set Part) \<and> Parts \<noteq> From"
  define toks where "toks = replicate (length From - k) ''..'' @ drop k Parts"
  have take: "take k Parts = take k From"
    unfolding k_def using longest_common_prefix_take [of Parts From] by simp
  have kP: "k \<le> length Parts" and kF: "k \<le> length From"
    unfolding k_def
    using prefix_length_le [OF longest_common_prefix_prefix1 [of Parts From]]
      prefix_length_le [OF longest_common_prefix_prefix2 [of Parts From]] by simp_all
  have ne: "toks \<noteq> []"
  proof
    assume "toks = []"
    then have "length From = k" "length Parts = k" using kP kF by (simp_all add: toks_def)
    with take have "Parts = From" by simp
    with seg show False by simp
  qed
  have all: "\<forall>t \<in> set toks. t \<noteq> [] \<and> CHR ''/'' \<notin> set t"
    using seg by (auto simp: toks_def dest: in_set_dropD)
  then have "\<forall>t \<in> set toks. t \<noteq> []" by blast
  from join_sep_ends [OF ne this]
  have j: "join_sep toks \<noteq> []" "hd (join_sep toks) = hd (hd toks)"
    "last (join_sep toks) = last (last toks)" by simp_all
  have "hd toks \<in> set toks" "last toks \<in> set toks"
    using ne by (rule hd_in_set, rule last_in_set)
  with all have "hd (hd toks) \<in> set (hd toks)" "CHR ''/'' \<notin> set (hd toks)"
    "last (last toks) \<in> set (last toks)" "CHR ''/'' \<notin> set (last toks)"
    by simp_all
  then have "hd (hd toks) \<noteq> CHR ''/''" "last (last toks) \<noteq> CHR ''/''" by metis+
  with j show "AsRelativeString Parts From \<noteq> []"
    "hd (AsRelativeString Parts From) \<noteq> CHR ''/''"
    "last (AsRelativeString Parts From) \<noteq> CHR ''/''"
    unfolding str toks_def [symmetric] by simp_all
qed

theorem AsRelativeString_common_prefix_witness:
  "AsRelativeString [''a'', ''b'', ''c''] [''a'', ''x'', ''y''] = ''../../b/c'' \<and>
   FindCommonRoot [''a'', ''b'', ''c''] [''a'', ''x'', ''y''] 0 0 [] = ([''a''], 1, 1) \<and>
   AsRelativeString [''a'', ''b'', ''c''] [''a'', ''b'', ''c''] = [] \<and>
   AsRelativeString [''A'', ''b''] [''a'', ''b''] = ''../../A/b''"
  using AsRelativeString_common_prefix [of "[''a'', ''b'', ''c'']" "[''a'', ''x'', ''y'']"]
    AsRelativeString_common_prefix [of "[''A'', ''b'']" "[''a'', ''b'']"]
  by simp

section \<open>FilePath and navigation\<close>

lemma Path_root: "Path ''/'' = Inr []"
  by (simp add: Path_normalize IsAbsolute_def)

text \<open>
  C6, as stated, fails: \<^verbatim>\<open>FilePath("/")\<close> and \<^verbatim>\<open>FilePath::Qualify("/")\<close> succeed with no
  segment at all, and \<^verbatim>\<open>File()\<close> and \<^verbatim>\<open>Directory()\<close> are undefined on it.
\<close>

theorem FilePath_root_has_no_segment:
  "FilePath ''/'' = Inr [] \<and> FilePath_Qualify None ''/'' = Inr [] \<and>
   File [] = Inl UndefinedBehaviour \<and> Directory [] = Inl UndefinedBehaviour"
  by (simp add: FilePath_def FilePath_Qualify_def Path_root IsAbsolute_def File_def Directory_def)

lemma tokens_append_sep:
  "CHR ''/'' \<notin> set x \<Longrightarrow> spec_tokens (x @ CHR ''/'' # r) = x # spec_tokens r"
  by (induction x) auto

lemma tokens_joined_then:
  "CHR ''/'' \<notin> set x \<Longrightarrow> \<forall>p \<in> set ps. CHR ''/'' \<notin> set p \<Longrightarrow>
   spec_tokens (x @ concat (map (\<lambda>Part. ''/'' @ Part) ps) @ CHR ''/'' # r) =
     x # ps @ spec_tokens r"
proof (induction ps arbitrary: x)
  case Nil
  then show ?case by (simp add: tokens_append_sep)
next
  case (Cons p ps)
  from Cons.prems(2) have p: "CHR ''/'' \<notin> set p" and ps: "\<forall>p \<in> set ps. CHR ''/'' \<notin> set p"
    by simp_all
  have "spec_tokens (x @ concat (map (\<lambda>Part. ''/'' @ Part) (p # ps)) @ CHR ''/'' # r) =
      spec_tokens (x @ CHR ''/'' # (p @ concat (map (\<lambda>Part. ''/'' @ Part) ps) @ CHR ''/'' # r))"
    by simp
  also have "\<dots> = x # spec_tokens (p @ concat (map (\<lambda>Part. ''/'' @ Part) ps) @ CHR ''/'' # r)"
    by (rule tokens_append_sep [OF Cons.prems(1)])
  also have "\<dots> = x # p # ps @ spec_tokens r"
    by (simp only: Cons.IH [OF p ps])
  finally show ?case by simp
qed

lemma normalize_segments_then:
  "\<forall>p \<in> set ps. p \<noteq> [] \<and> p \<noteq> ''.'' \<and> p \<noteq> ''..'' \<Longrightarrow>
   spec_normalize stack (ps @ ts) = spec_normalize (stack @ ps) ts"
  by (induction ps arbitrary: stack) simp_all

lemma Path_below:
  assumes wd: "Path WorkingDirectoryBuffer = Inr wd"
  shows "Path (AsAbsoluteString wd @ ''/'' @ RawPath) = spec_normalize wd (spec_tokens RawPath)"
proof -
  from Path_segments [OF wd]
  have seg: "\<forall>p \<in> set wd. p \<noteq> [] \<and> p \<noteq> ''.'' \<and> p \<noteq> ''..''"
    and sep: "\<forall>p \<in> set wd. CHR ''/'' \<notin> set p" by blast+
  show ?thesis
  proof (cases "wd = []")
    case True
    then show ?thesis
      by (simp add: AsAbsoluteString_def Path_normalize IsAbsolute_def)
  next
    case False
    then obtain p ps where wd_eq: "wd = p # ps" by (cases wd) auto
    let ?s = "AsAbsoluteString wd @ ''/'' @ RawPath"
    have str: "?s = [] @ concat (map (\<lambda>Part. ''/'' @ Part) wd) @ CHR ''/'' # RawPath"
      using False by (simp add: AsAbsoluteString_concat)
    have "spec_tokens ?s = [] # wd @ spec_tokens RawPath"
      unfolding str using sep by (intro tokens_joined_then) simp_all
    moreover have "spec_normalize [] (wd @ spec_tokens RawPath) =
        spec_normalize ([] @ wd) (spec_tokens RawPath)"
      using seg by (rule normalize_segments_then)
    moreover have "IsAbsolute ?s" "?s \<noteq> []"
      by (simp_all add: AsAbsoluteString_concat wd_eq IsAbsolute_def)
    ultimately show ?thesis by (simp add: Path_normalize)
  qed
qed

text \<open>
  C6, amended. Every FilePath produced by \<^verbatim>\<open>DirectoryPath::Select\<close> has at least one
  segment: \<^verbatim>\<open>File()\<close> returns the selected name and \<^verbatim>\<open>Directory()\<close> the selecting directory.
  A FilePath constructed from an absolute string holds the normalized segments of that
  string, and \<^verbatim>\<open>Qualify\<close> returns the same for an absolute \<^verbatim>\<open>RawPath\<close> and, for any other, the
  tokens of \<^verbatim>\<open>RawPath\<close> normalized on top of the segments of the working directory (or the
  error of the working directory); neither checks that a segment is left. Whenever a
  FilePath has at least one segment, \<^verbatim>\<open>File()\<close> returns its last segment and \<^verbatim>\<open>Directory()\<close>
  the remaining prefix.
\<close>

theorem FilePath_segments:
  "Select Parts Filename \<noteq> [] \<and>
   File (Select Parts Filename) = Inr Filename \<and>
   Directory (Select Parts Filename) = Inr Parts \<and>
   (FilePath Absolute = Inr fp \<longrightarrow> spec_normalize [] (spec_tokens Absolute) = Inr fp) \<and>
   (FilePath Absolute = Inr fp \<longleftrightarrow>
      Absolute \<noteq> [] \<and> IsAbsolute Absolute \<and> spec_normalize [] (spec_tokens Absolute) = Inr fp) \<and>
   (FilePath_Qualify getcwd RawPath = Inr fp \<longrightarrow>
      (\<exists>Absolute. Absolute \<noteq> [] \<and> IsAbsolute Absolute \<and>
         spec_normalize [] (spec_tokens Absolute) = Inr fp)) \<and>
   (IsAbsolute RawPath \<longrightarrow>
      FilePath_Qualify getcwd RawPath = spec_normalize [] (spec_tokens RawPath)) \<and>
   (\<not> IsAbsolute RawPath \<and> getcwd = Some WorkingDirectoryBuffer \<and>
    Path WorkingDirectoryBuffer = Inr wd \<longrightarrow>
      FilePath_Qualify getcwd RawPath = spec_normalize wd (spec_tokens RawPath)) \<and>
   (\<not> IsAbsolute RawPath \<and> getcwd = Some WorkingDirectoryBuffer \<and>
    Path WorkingDirectoryBuffer = Inl e \<longrightarrow>
      FilePath_Qualify getcwd RawPath = Inl e) \<and>
   (\<not> IsAbsolute RawPath \<and> getcwd = None \<longrightarrow>
      FilePath_Qualify getcwd RawPath =
        Inl (System (''Couldn'' @ [CHR 0x27] @ ''t obtain working directory!''))) \<and>
   (fp \<noteq> [] \<longrightarrow> File fp = Inr (last fp) \<and> Directory fp = Inr (butlast fp))"
proof (intro conjI impI)
  show "FilePath Absolute = Inr fp \<Longrightarrow> spec_normalize [] (spec_tokens Absolute) = Inr fp"
    unfolding FilePath_def by (rule Path_Inr_normalize)
next
  show "FilePath Absolute = Inr fp \<longleftrightarrow>
      Absolute \<noteq> [] \<and> IsAbsolute Absolute \<and> spec_normalize [] (spec_tokens Absolute) = Inr fp"
    by (simp add: FilePath_def Path_normalize)
next
  assume q: "FilePath_Qualify getcwd RawPath = Inr fp"
  then obtain Absolute where "Path Absolute = Inr fp"
    by (auto simp: FilePath_Qualify_def FilePath_def split: if_splits sum.splits)
  then have "Absolute \<noteq> [] \<and> IsAbsolute Absolute \<and>
      spec_normalize [] (spec_tokens Absolute) = Inr fp"
    by (simp add: Path_normalize split: if_splits)
  then show "\<exists>Absolute. Absolute \<noteq> [] \<and> IsAbsolute Absolute \<and>
      spec_normalize [] (spec_tokens Absolute) = Inr fp" ..
next
  assume "IsAbsolute RawPath"
  moreover from this have "RawPath \<noteq> []" by (auto simp: IsAbsolute_def)
  ultimately show "FilePath_Qualify getcwd RawPath = spec_normalize [] (spec_tokens RawPath)"
    by (simp add: FilePath_Qualify_def FilePath_def Path_normalize)
next
  assume a: "\<not> IsAbsolute RawPath \<and> getcwd = Some WorkingDirectoryBuffer \<and>
    Path WorkingDirectoryBuffer = Inr wd"
  then have wd: "Path WorkingDirectoryBuffer = Inr wd" by simp
  from a Path_below [OF wd, of RawPath]
  show "FilePath_Qualify getcwd RawPath = spec_normalize wd (spec_tokens RawPath)"
    by (simp add: FilePath_Qualify_def LocateWorkingDirectory_def DirectoryPath_def FilePath_def)
next
  assume "\<not> IsAbsolute RawPath \<and> getcwd = Some WorkingDirectoryBuffer \<and>
    Path WorkingDirectoryBuffer = Inl e"
  then show "FilePath_Qualify getcwd RawPath = Inl e"
    by (simp add: FilePath_Qualify_def LocateWorkingDirectory_def DirectoryPath_def)
next
  assume "\<not> IsAbsolute RawPath \<and> getcwd = None"
  then show "FilePath_Qualify getcwd RawPath =
        Inl (System (''Couldn'' @ [CHR 0x27] @ ''t obtain working directory!''))"
    by (simp add: FilePath_Qualify_def LocateWorkingDirectory_def)
qed (simp_all add: Select_def File_def Directory_def)

theorem FilePath_segments_witness:
  "File (Select [''a''] ''b.txt'') = Inr ''b.txt'' \<and>
   Directory (Select [''a''] ''b.txt'') = Inr [''a''] \<and>
   FilePath ''/a/b.txt'' = Inr [''a'', ''b.txt''] \<and>
   File [''a'', ''b.txt''] = Inr ''b.txt'' \<and> Directory [''a'', ''b.txt''] = Inr [''a''] \<and>
   FilePath_Qualify (Some ''/home/u'') ''x/../y.txt'' = Inr [''home'', ''u'', ''y.txt''] \<and>
   FilePath_Qualify (Some ''/home/u'') ''../..'' = Inr [] \<and>
   FilePath_Qualify (Some ''/home/u'') ''../../..'' =
     Inl (Construction ''.. directory specified at root level!'') \<and>
   FilePath_Qualify None ''/a/b.txt'' = Inr [''a'', ''b.txt''] \<and>
   FilePath_Qualify None ''y.txt'' =
     Inl (System (''Couldn'' @ [CHR 0x27] @ ''t obtain working directory!'')) \<and>
   FilePath_Qualify (Some ''home/u'') ''y.txt'' =
     Inl (Construction ''Base paths must be constructed with absolute paths.'')"
proof -
  have f: "FilePath ''/a/b.txt'' = Inr [''a'', ''b.txt'']"
    by (simp add: FilePath_def Path_normalize IsAbsolute_def)
  have wd: "Path ''/home/u'' = Inr [''home'', ''u'']"
    by (simp add: Path_normalize IsAbsolute_def)
  have bad: "Path ''home/u'' =
      Inl (Construction ''Base paths must be constructed with absolute paths.'')"
    by (simp add: Path_normalize IsAbsolute_def)
  note inst = FilePath_segments [of "[''a'']" "''b.txt''" "''/a/b.txt''" "[''a'', ''b.txt'']"]
  from f inst [of _ "''/a/b.txt''"]
  have basic: "File (Select [''a''] ''b.txt'') = Inr ''b.txt''"
    "Directory (Select [''a''] ''b.txt'') = Inr [''a'']"
    "File [''a'', ''b.txt''] = Inr ''b.txt''" "Directory [''a'', ''b.txt''] = Inr [''a'']"
    by simp_all
  from wd inst [of "Some ''/home/u''" "''x/../y.txt''" "''/home/u''" "[''home'', ''u'']"]
  have q1: "FilePath_Qualify (Some ''/home/u'') ''x/../y.txt'' = Inr [''home'', ''u'', ''y.txt'']"
    by (simp add: IsAbsolute_def)
  from wd inst [of "Some ''/home/u''" "''../..''" "''/home/u''" "[''home'', ''u'']"]
  have q2: "FilePath_Qualify (Some ''/home/u'') ''../..'' = Inr []"
    by (simp add: IsAbsolute_def)
  from wd inst [of "Some ''/home/u''" "''../../..''" "''/home/u''" "[''home'', ''u'']"]
  have q3: "FilePath_Qualify (Some ''/home/u'') ''../../..'' =
     Inl (Construction ''.. directory specified at root level!'')"
    by (simp add: IsAbsolute_def)
  from inst [of None "''/a/b.txt''"]
  have q4: "FilePath_Qualify None ''/a/b.txt'' = Inr [''a'', ''b.txt'']"
    by (simp add: IsAbsolute_def)
  from inst [of None "''y.txt''"]
  have q5: "FilePath_Qualify None ''y.txt'' =
     Inl (System (''Couldn'' @ [CHR 0x27] @ ''t obtain working directory!''))"
    by (simp add: IsAbsolute_def)
  from bad inst [of "Some ''home/u''" "''y.txt''" "''home/u''" _
      "Construction ''Base paths must be constructed with absolute paths.''"]
  have q6: "FilePath_Qualify (Some ''home/u'') ''y.txt'' =
     Inl (Construction ''Base paths must be constructed with absolute paths.'')"
    by (simp add: IsAbsolute_def)
  from basic f q1 q2 q3 q4 q5 q6 show ?thesis by blast
qed

lemma fully_normalized_snoc:
  "fully_normalized (Parts @ [Part]) \<longleftrightarrow>
     fully_normalized Parts \<and> Part \<noteq> [] \<and> Part \<noteq> ''.'' \<and> Part \<noteq> ''..''"
  unfolding fully_normalized_def by auto

lemma fully_normalized_butlast: "fully_normalized Parts \<Longrightarrow> fully_normalized (butlast Parts)"
  unfolding fully_normalized_def by (blast dest: in_set_butlastD)

lemma nav_calls_normalized:
  "fully_normalized Parts \<Longrightarrow> list_all plain_argument calls \<Longrightarrow>
   nav_calls Parts calls = Inr (Parts', selected) \<Longrightarrow>
   fully_normalized Parts' \<and> list_all fully_normalized selected"
proof (induction Parts calls arbitrary: Parts' selected rule: nav_calls.induct)
  case (1 Parts)
  then show ?case by simp
next
  case (2 Parts DirectoryName calls)
  from "2.prems" have "fully_normalized (Enter Parts DirectoryName)"
    by (simp add: Enter_def fully_normalized_snoc)
  with "2.prems" show ?case by (intro "2.IH") simp_all
next
  case (3 Parts calls)
  from "3.prems"(3) obtain Q where Q: "Exit Parts = Inr Q" "nav_calls Q calls = Inr (Parts', selected)"
    by (auto split: sum.splits)
  from Q(1) "3.prems"(1) have "fully_normalized Q"
    by (auto simp: Exit_def fully_normalized_butlast split: if_splits)
  with Q "3.prems" show ?case by (intro "3.IH" [of Q]) simp_all
next
  case (4 Parts Filename calls)
  from "4.prems"(3) obtain rest where r: "nav_calls Parts calls = Inr (Parts', rest)"
    "selected = Select Parts Filename # rest"
    by (auto split: sum.splits)
  from "4.prems" have "fully_normalized (Select Parts Filename)"
    by (simp add: Select_def fully_normalized_snoc)
  moreover from r(1) "4.prems" have "fully_normalized Parts' \<and> list_all fully_normalized rest"
    by (intro "4.IH") simp_all
  ultimately show ?case using r(2) by simp
qed

text \<open>
  C7, as stated, fails: \<^verbatim>\<open>Enter\<close> and \<^verbatim>\<open>Select\<close> append any string, so \<^verbatim>\<open>Enter("..")\<close> on the
  DirectoryPath of \<^verbatim>\<open>/a\<close> leaves the sequence \<^verbatim>\<open>a\<close>, \<^verbatim>\<open>..\<close>, and \<^verbatim>\<open>Select("")\<close> returns a
  FilePath with an empty segment.
\<close>

theorem Enter_appends_unchecked:
  "DirectoryPath ''/a'' = Inr [''a''] \<and>
   nav_calls [''a''] [CallEnter ''..''] = Inr ([''a'', ''..''], []) \<and>
   \<not> fully_normalized [''a'', ''..''] \<and>
   nav_calls [''a''] [CallSelect []] = Inr ([''a''], [[''a'', []]]) \<and>
   \<not> fully_normalized [''a'', []]"
  by (simp add: DirectoryPath_def Path_normalize IsAbsolute_def Enter_def Select_def
      fully_normalized_def)

text \<open>
  C7, amended. A DirectoryPath built from a valid absolute input is fully normalized, and
  after any sequence of \<^verbatim>\<open>Enter\<close>, \<^verbatim>\<open>Exit\<close> and \<^verbatim>\<open>Select\<close> calls whose argument strings are
  non-empty and neither \<^verbatim>\<open>.\<close> nor \<^verbatim>\<open>..\<close> the cursor and every selected FilePath are still
  fully normalized; \<^verbatim>\<open>Enter\<close> and \<^verbatim>\<open>Select\<close> keep full normalization exactly for such
  arguments.
\<close>

theorem navigation_keeps_normalization:
  "(DirectoryPath Absolute = Inr Parts \<longrightarrow> fully_normalized Parts) \<and>
   (fully_normalized Parts \<and> list_all plain_argument calls \<and>
    nav_calls Parts calls = Inr (Parts', selected) \<longrightarrow>
      fully_normalized Parts' \<and> list_all fully_normalized selected) \<and>
   (fully_normalized (Enter Parts DirectoryName) \<longleftrightarrow>
      fully_normalized Parts \<and> plain_argument (CallEnter DirectoryName)) \<and>
   (fully_normalized (Select Parts Filename) \<longleftrightarrow>
      fully_normalized Parts \<and> plain_argument (CallSelect Filename))"
proof (intro conjI impI)
  assume "DirectoryPath Absolute = Inr Parts"
  then have "Path Absolute = Inr Parts" by (simp add: DirectoryPath_def)
  from Path_segments [OF this] show "fully_normalized Parts"
    unfolding fully_normalized_def by blast
next
  assume "fully_normalized Parts \<and> list_all plain_argument calls \<and>
    nav_calls Parts calls = Inr (Parts', selected)"
  then show "fully_normalized Parts'" "list_all fully_normalized selected"
    using nav_calls_normalized [of Parts calls Parts' selected] by simp_all
qed (simp_all add: Enter_def Select_def fully_normalized_snoc)

theorem navigation_keeps_normalization_witness:
  "DirectoryPath ''/a/b'' = Inr [''a'', ''b''] \<and>
   nav_calls [''a'', ''b''] [CallExit, CallEnter ''c'', CallSelect ''f.txt'', CallEnter ''d''] =
     Inr ([''a'', ''c'', ''d''], [[''a'', ''c'', ''f.txt'']]) \<and>
   fully_normalized [''a'', ''c'', ''d''] \<and> list_all fully_normalized [[''a'', ''c'', ''f.txt'']]"
proof -
  have p: "DirectoryPath ''/a/b'' = Inr [''a'', ''b'']"
    by (simp add: DirectoryPath_def Path_normalize IsAbsolute_def)
  have n: "nav_calls [''a'', ''b''] [CallExit, CallEnter ''c'', CallSelect ''f.txt'', CallEnter ''d''] =
     Inr ([''a'', ''c'', ''d''], [[''a'', ''c'', ''f.txt'']])"
    by (simp add: Exit_def IsRoot_def Enter_def Select_def)
  have a: "list_all plain_argument [CallExit, CallEnter ''c'', CallSelect ''f.txt'', CallEnter ''d'']"
    by simp
  from navigation_keeps_normalization [of "''/a/b''" "[''a'', ''b'']"
      "[CallExit, CallEnter ''c'', CallSelect ''f.txt'', CallEnter ''d'']"
      "[''a'', ''c'', ''d'']" "[[''a'', ''c'', ''f.txt'']]"] p n a
  show ?thesis by blast
qed

section \<open>Directory listings and the walk\<close>

lemma collect_fold:
  "fold (\<lambda>e Out. if skip e then Out else if keep e then Out @ [d_name e] else Out) entries acc =
     acc @ map d_name (filter (\<lambda>e. \<not> skip e \<and> keep e) entries)"
  by (induction entries arbitrary: acc) simp_all

lemma ListFiles_listed:
  "ListFiles fs Parts =
     map d_name (filter (\<lambda>e. d_type e \<noteq> DT_DIR) (listed fs (AsAbsoluteString Parts)))"
proof (cases "fs (AsAbsoluteString Parts)")
  case None
  then show ?thesis by (simp add: ListFiles_def ProcessDirectoryContents_def listed_def)
next
  case (Some entries)
  have "ListFiles fs Parts =
      fold (\<lambda>e Out. if d_name e = ''.'' \<or> d_name e = ''..'' then Out
                     else if d_type e \<noteq> DT_DIR then Out @ [d_name e] else Out) entries []"
    by (simp add: ListFiles_def ProcessDirectoryContents_def Some)
  also have "\<dots> = map d_name (filter (\<lambda>e. \<not> (d_name e = ''.'' \<or> d_name e = ''..'') \<and> d_type e \<noteq> DT_DIR) entries)"
    by (simp only: collect_fold append_Nil)
  finally show ?thesis by (simp add: listed_def Some conj_commute)
qed

lemma ListDirectories_listed:
  "ListDirectories fs Parts =
     map d_name (filter (\<lambda>e. d_type e = DT_DIR) (listed fs (AsAbsoluteString Parts)))"
proof (cases "fs (AsAbsoluteString Parts)")
  case None
  then show ?thesis by (simp add: ListDirectories_def ProcessDirectoryContents_def listed_def)
next
  case (Some entries)
  have "ListDirectories fs Parts =
      fold (\<lambda>e Out. if d_name e = ''.'' \<or> d_name e = ''..'' then Out
                     else if \<not> d_type e \<noteq> DT_DIR then Out @ [d_name e] else Out) entries []"
    by (simp add: ListDirectories_def ProcessDirectoryContents_def Some)
  also have "\<dots> = map d_name (filter (\<lambda>e. \<not> (d_name e = ''.'' \<or> d_name e = ''..'') \<and> \<not> d_type e \<noteq> DT_DIR) entries)"
    by (simp only: collect_fold append_Nil)
  finally show ?thesis by (simp add: listed_def Some conj_commute)
qed

text \<open>
  C10. For every directory, \<^verbatim>\<open>ListFiles\<close> and \<^verbatim>\<open>ListDirectories\<close> never return \<^verbatim>\<open>.\<close> or
  \<^verbatim>\<open>..\<close>: the two names are skipped before an entry is classified, and every returned
  name is the name of an entry that \<^verbatim>\<open>readdir\<close> gave for that directory, a directory entry
  for \<^verbatim>\<open>ListDirectories\<close> and another one for \<^verbatim>\<open>ListFiles\<close>.
\<close>

theorem listings_omit_dot_entries:
  "''.'' \<notin> set (ListFiles fs Parts) \<and> ''..'' \<notin> set (ListFiles fs Parts) \<and>
   ''.'' \<notin> set (ListDirectories fs Parts) \<and> ''..'' \<notin> set (ListDirectories fs Parts) \<and>
   (Element \<in> set (ListFiles fs Parts) \<longrightarrow>
      (\<exists>entries ElementInfo. fs (AsAbsoluteString Parts) = Some entries \<and>
         ElementInfo \<in> set entries \<and> d_name ElementInfo = Element \<and>
         d_type ElementInfo \<noteq> DT_DIR)) \<and>
   (Element \<in> set (ListDirectories fs Parts) \<longrightarrow>
      (\<exists>entries ElementInfo. fs (AsAbsoluteString Parts) = Some entries \<and>
         ElementInfo \<in> set entries \<and> d_name ElementInfo = Element \<and>
         d_type ElementInfo = DT_DIR))"
proof -
  have dots: "''.'' \<notin> d_name ` set (listed fs DirectoryName)"
    "''..'' \<notin> d_name ` set (listed fs DirectoryName)" for DirectoryName
    by (cases "fs DirectoryName"; auto simp: listed_def)+
  have sub: "e \<in> set (listed fs DirectoryName) \<Longrightarrow>
      \<exists>entries. fs DirectoryName = Some entries \<and> e \<in> set entries" for e DirectoryName
    by (cases "fs DirectoryName") (auto simp: listed_def)
  show ?thesis
    unfolding ListFiles_listed ListDirectories_listed
    using dots [of "AsAbsoluteString Parts"] sub [of _ "AsAbsoluteString Parts"]
    by auto blast+
qed

theorem listings_omit_dot_entries_witness:
  "example_fs (AsAbsoluteString [''R'']) =
     Some [\<lparr>d_name = ''.'', d_type = DT_DIR\<rparr>, \<lparr>d_name = ''..'', d_type = DT_DIR\<rparr>,
           \<lparr>d_name = ''f1'', d_type = DT_REG\<rparr>, \<lparr>d_name = ''U'', d_type = DT_DIR\<rparr>,
           \<lparr>d_name = ''D'', d_type = DT_DIR\<rparr>, \<lparr>d_name = ''f3'', d_type = DT_REG\<rparr>] \<and>
   ''.'' \<notin> set (ListFiles example_fs [''R'']) \<and> ''..'' \<notin> set (ListFiles example_fs [''R'']) \<and>
   ''.'' \<notin> set (ListDirectories example_fs [''R'']) \<and>
   ''..'' \<notin> set (ListDirectories example_fs [''R''])"
proof -
  have "example_fs (AsAbsoluteString [''R'']) =
     Some [\<lparr>d_name = ''.'', d_type = DT_DIR\<rparr>, \<lparr>d_name = ''..'', d_type = DT_DIR\<rparr>,
           \<lparr>d_name = ''f1'', d_type = DT_REG\<rparr>, \<lparr>d_name = ''U'', d_type = DT_DIR\<rparr>,
           \<lparr>d_name = ''D'', d_type = DT_DIR\<rparr>, \<lparr>d_name = ''f3'', d_type = DT_REG\<rparr>]"
    by (simp add: example_fs_def AsAbsoluteString_def)
  with listings_omit_dot_entries [of example_fs "[''R'']"] show ?thesis by blast
qed

lemma unreadable_lists:
  assumes "fs (AsAbsoluteString Parts) = None"
  shows "ListFiles fs Parts = []" and "ListDirectories fs Parts = []"
  using assms by (simp_all add: ListFiles_def ListDirectories_def ProcessDirectoryContents_def)

lemma Walk_loop_descend:
  "NextTransition \<noteq> [] \<Longrightarrow>
   Walk_loop fs \<lparr>Transitions = NextTransition # rest, WalkMarker = Parts, Processed = done\<rparr> =
   Walk_loop fs \<lparr>Transitions = ListDirectories fs (Enter Parts NextTransition) @ [] # rest,
                  WalkMarker = Enter Parts NextTransition,
                  Processed = done @ map (Select (Enter Parts NextTransition))
                                       (ListFiles fs (Enter Parts NextTransition))\<rparr>"
  by (subst Walk_loop.simps)
     (simp add: Walk_body_def ProcessFiles_def QueueNewTransitions_def)

lemma Walk_loop_ascend:
  "Walk_loop fs \<lparr>Transitions = [] # rest, WalkMarker = Enter Parts Name, Processed = done\<rparr> =
   Walk_loop fs \<lparr>Transitions = rest, WalkMarker = Parts, Processed = done\<rparr>"
  by (subst Walk_loop.simps)
     (simp add: Walk_body_def Exit_def IsRoot_def Enter_def)

text \<open>
  C9. If a directory cannot be opened, no error is raised: \<^verbatim>\<open>ProcessDirectoryContents\<close>
  calls nothing, both listings are empty, and the walk enters the directory, adds no file
  and no transition, and leaves it again: the loop goes on with the remaining pending
  entries, the cursor and the processed files as they were. A walk whose root cannot be
  opened returns at once, having processed nothing.
\<close>

theorem Walk_unreadable_directory:
  "(fs DirectoryName = None \<longrightarrow> ProcessDirectoryContents fs DirectoryName Process s = s) \<and>
   (fs (AsAbsoluteString (Enter Parts Name)) = None \<and> Name \<noteq> [] \<longrightarrow>
      ListFiles fs (Enter Parts Name) = [] \<and> ListDirectories fs (Enter Parts Name) = [] \<and>
      Walk_body fs Name \<lparr>Transitions = rest, WalkMarker = Parts, Processed = done\<rparr> =
        Inr \<lparr>Transitions = [] # rest, WalkMarker = Enter Parts Name, Processed = done\<rparr> \<and>
      Walk_body fs [] \<lparr>Transitions = rest, WalkMarker = Enter Parts Name, Processed = done\<rparr> =
        Inr \<lparr>Transitions = rest, WalkMarker = Parts, Processed = done\<rparr> \<and>
      Walk_loop fs \<lparr>Transitions = Name # rest, WalkMarker = Parts, Processed = done\<rparr> =
        Walk_loop fs \<lparr>Transitions = rest, WalkMarker = Parts, Processed = done\<rparr>) \<and>
   (fs (AsAbsoluteString Parts) = None \<longrightarrow>
      Walk fs Parts = Some (Inr \<lparr>Transitions = [], WalkMarker = Parts, Processed = []\<rparr>))"
proof (intro conjI impI)
  assume "fs DirectoryName = None"
  then show "ProcessDirectoryContents fs DirectoryName Process s = s"
    by (simp add: ProcessDirectoryContents_def)
next
  assume "fs (AsAbsoluteString Parts) = None"
  from unreadable_lists [of fs Parts, OF this]
  have "Walk_init fs Parts = \<lparr>Transitions = [], WalkMarker = Parts, Processed = []\<rparr>"
    by (simp add: Walk_init_def ProcessFiles_def QueueNewTransitions_def)
  then show "Walk fs Parts = Some (Inr \<lparr>Transitions = [], WalkMarker = Parts, Processed = []\<rparr>)"
    unfolding Walk_def by (subst Walk_loop.simps) simp
next
  assume a: "fs (AsAbsoluteString (Enter Parts Name)) = None \<and> Name \<noteq> []"
  then have none: "fs (AsAbsoluteString (Enter Parts Name)) = None" and ne: "Name \<noteq> []"
    by simp_all
  note lists = unreadable_lists [of fs "Enter Parts Name", OF none]
  show "ListFiles fs (Enter Parts Name) = []" "ListDirectories fs (Enter Parts Name) = []"
    by (rule lists)+
  show "Walk_body fs Name \<lparr>Transitions = rest, WalkMarker = Parts, Processed = done\<rparr> =
        Inr \<lparr>Transitions = [] # rest, WalkMarker = Enter Parts Name, Processed = done\<rparr>"
    using ne by (simp add: Walk_body_def ProcessFiles_def QueueNewTransitions_def lists)
  show "Walk_body fs [] \<lparr>Transitions = rest, WalkMarker = Enter Parts Name, Processed = done\<rparr> =
        Inr \<lparr>Transitions = rest, WalkMarker = Parts, Processed = done\<rparr>"
    by (simp add: Walk_body_def Exit_def IsRoot_def Enter_def)
  show "Walk_loop fs \<lparr>Transitions = Name # rest, WalkMarker = Parts, Processed = done\<rparr> =
        Walk_loop fs \<lparr>Transitions = rest, WalkMarker = Parts, Processed = done\<rparr>"
    by (simp add: Walk_loop_descend [OF ne] lists Walk_loop_ascend)
qed

lemma Walk_loop_done:
  "Walk_loop fs \<lparr>Transitions = [], WalkMarker = Parts, Processed = done\<rparr> =
   Some (Inr \<lparr>Transitions = [], WalkMarker = Parts, Processed = done\<rparr>)"
  by (subst Walk_loop.simps) simp

lemma Walk_loop_ascend_butlast:
  "Parts \<noteq> [] \<Longrightarrow>
   Walk_loop fs \<lparr>Transitions = [] # rest, WalkMarker = Parts, Processed = done\<rparr> =
   Walk_loop fs \<lparr>Transitions = rest, WalkMarker = butlast Parts, Processed = done\<rparr>"
  by (subst Walk_loop.simps)
     (simp add: Walk_body_def Exit_def IsRoot_def)

lemma example_fs_D:
  "ListFiles example_fs [''R'', ''D''] = [''f2'']" "ListDirectories example_fs [''R'', ''D''] = []"
  by (simp_all add: ListFiles_def ListDirectories_def ProcessDirectoryContents_def
      AsAbsoluteString_def example_fs_def)

lemma example_fs_R:
  "ListFiles example_fs [''R''] = [''f1'', ''f3'']"
  "ListDirectories example_fs [''R''] = [''U'', ''D'']"
  by (simp_all add: ListFiles_def ListDirectories_def ProcessDirectoryContents_def
      AsAbsoluteString_def example_fs_def)

lemma example_fs_U: "example_fs (AsAbsoluteString (Enter [''R''] ''U'')) = None"
  by (simp add: example_fs_def AsAbsoluteString_def Enter_def)

lemma example_walk_D:
  "Walk_loop example_fs
     \<lparr>Transitions = [''D''], WalkMarker = [''R''],
        Processed = [[''R'', ''f1''], [''R'', ''f3'']]\<rparr> =
   Some (Inr \<lparr>Transitions = [], WalkMarker = [''R''],
                Processed = [[''R'', ''f1''], [''R'', ''f3''], [''R'', ''D'', ''f2'']]\<rparr>)"
  by (simp add: Walk_loop_descend Enter_def Select_def example_fs_D Walk_loop_ascend_butlast
      Walk_loop_done)

theorem Walk_unreadable_directory_witness:
  "example_fs (AsAbsoluteString (Enter [''R''] ''U'')) = None \<and>
   ListDirectories example_fs [''R''] = [''U'', ''D''] \<and>
   Walk_loop example_fs
     \<lparr>Transitions = [''U'', ''D''], WalkMarker = [''R''],
        Processed = [[''R'', ''f1''], [''R'', ''f3'']]\<rparr> =
   Some (Inr \<lparr>Transitions = [], WalkMarker = [''R''],
                Processed = [[''R'', ''f1''], [''R'', ''f3''], [''R'', ''D'', ''f2'']]\<rparr>)"
proof -
  have "''U'' \<noteq> []" by simp
  with example_fs_U
    Walk_unreadable_directory [of example_fs "''/nowhere''" "\<lambda>Element IsFile s. s" "()" "[''R'']" "''U''" "[''D'']"
      "[[''R'', ''f1''], [''R'', ''f3'']]"]
  have "Walk_loop example_fs
     \<lparr>Transitions = [''U'', ''D''], WalkMarker = [''R''],
        Processed = [[''R'', ''f1''], [''R'', ''f3'']]\<rparr> =
    Walk_loop example_fs
     \<lparr>Transitions = [''D''], WalkMarker = [''R''],
        Processed = [[''R'', ''f1''], [''R'', ''f3'']]\<rparr>"
    by blast
  with example_walk_D example_fs_U example_fs_R show ?thesis by simp
qed

section \<open>Walking a finite directory tree\<close>

lemma listing_names:
  "map (\<lambda>e. (d_name e, d_type e = DT_DIR)) entries = map entry_kind es \<Longrightarrow>
   map d_name (filter (\<lambda>e. d_type e \<noteq> DT_DIR) entries) = file_names es \<and>
   map d_name (filter (\<lambda>e. d_type e = DT_DIR) entries) = dir_names es"
proof (induction es arbitrary: entries)
  case Nil
  then show ?case by simp
next
  case (Cons e es)
  then obtain x xs where entries: "entries = x # xs" by (cases entries) auto
  with Cons.prems have x: "(d_name x, d_type x = DT_DIR) = entry_kind e"
    and xs: "map (\<lambda>e. (d_name e, d_type e = DT_DIR)) xs = map entry_kind es"
    by simp_all
  from x Cons.IH [OF xs] show ?case
    by (cases e) (simp_all add: entries)
qed

lemma tree_at_lists:
  assumes "tree_at fs Parts es"
  shows "ListFiles fs Parts = file_names es" and "ListDirectories fs Parts = dir_names es"
  using listing_names [of "listed fs (AsAbsoluteString Parts)" es] assms
  by (simp_all add: ListFiles_listed ListDirectories_listed)

lemma Walk_loop_subtrees:
  "tree_at fs Parts es \<Longrightarrow>
     Walk_loop fs \<lparr>Transitions = dir_names es @ rest, WalkMarker = Parts, Processed = done\<rparr> =
     Walk_loop fs \<lparr>Transitions = rest, WalkMarker = Parts,
                    Processed = done @ walk_order_subdirectories Parts es\<rparr>"
  "subtrees_at fs Parts es \<Longrightarrow>
     Walk_loop fs \<lparr>Transitions = dir_names es @ rest, WalkMarker = Parts, Processed = done\<rparr> =
     Walk_loop fs \<lparr>Transitions = rest, WalkMarker = Parts,
                    Processed = done @ walk_order_subdirectories Parts es\<rparr>"
proof (induction fs Parts es and fs Parts es arbitrary: rest "done" and rest "done"
    rule: tree_at_subtrees_at.induct)
  case (1 fs Parts es)
  from "1.prems" have "subtrees_at fs Parts es" by simp
  then show ?case by (rule "1.IH")
next
  case (2 fs Parts)
  show ?case by simp
next
  case (3 fs Parts Name es)
  from "3.prems" have "subtrees_at fs Parts es" by simp
  from "3.IH" [OF this] show ?case by simp
next
  case (4 fs Parts Name contents es)
  from "4.prems" have name: "Name \<noteq> []" and sub: "tree_at fs (Parts @ [Name]) contents"
    and more: "subtrees_at fs Parts es"
    by simp_all
  note lists = tree_at_lists [OF sub]
  have "Walk_loop fs \<lparr>Transitions = dir_names (DirEntry Name contents # es) @ rest,
                         WalkMarker = Parts, Processed = done\<rparr> =
        Walk_loop fs \<lparr>Transitions = dir_names contents @ [] # dir_names es @ rest,
                         WalkMarker = Parts @ [Name],
                         Processed = (done @ map (Select (Parts @ [Name])) (file_names contents))\<rparr>"
    by (simp add: Walk_loop_descend [OF name] Enter_def lists)
  also have "\<dots> =
        Walk_loop fs \<lparr>Transitions = [] # dir_names es @ rest, WalkMarker = Parts @ [Name],
                         Processed = (done @ map (Select (Parts @ [Name])) (file_names contents)) @
                           walk_order_subdirectories (Parts @ [Name]) contents\<rparr>"
    by (rule "4.IH"(1) [OF sub])
  also have "\<dots> =
        Walk_loop fs \<lparr>Transitions = dir_names es @ rest, WalkMarker = Parts,
                         Processed = done @ walk_order (Parts @ [Name]) contents\<rparr>"
    by (simp add: Walk_loop_ascend_butlast)
  also have "\<dots> =
        Walk_loop fs \<lparr>Transitions = rest, WalkMarker = Parts,
                         Processed = (done @ walk_order (Parts @ [Name]) contents) @
                           walk_order_subdirectories Parts es\<rparr>"
    by (rule "4.IH"(2) [OF more])
  finally show ?case by simp
qed

lemma well_formed_names:
  "well_formed es \<Longrightarrow> e \<in> set es \<Longrightarrow> plain_name (entry_name e)"
  by (induction es rule: well_formed.induct) auto

lemma well_formed_contents:
  "well_formed es \<Longrightarrow> DirEntry Name contents \<in> set es \<Longrightarrow> well_formed contents"
  by (induction es rule: well_formed.induct) auto

lemma well_formed_find_dir:
  "well_formed es \<Longrightarrow> DirEntry Name contents \<in> set es \<Longrightarrow> find_dir es Name = Some contents"
proof (induction es rule: well_formed.induct)
  case 1
  then show ?case by simp
next
  case (2 Name' es)
  then show ?case by auto
next
  case (3 Name' contents' es)
  show ?case
  proof (cases "DirEntry Name contents = DirEntry Name' contents'")
    case True
    then show ?thesis by simp
  next
    case False
    with "3.prems" have mem: "DirEntry Name contents \<in> set es" by auto
    then have "Name \<in> set (map entry_name es)" by force
    with "3.prems" have "Name' \<noteq> Name" by auto
    with "3.IH"(2) "3.prems" mem show ?thesis by simp
  qed
qed

lemma lookup_dir_snoc:
  "lookup_dir es (Parts @ [Name]) =
     (case lookup_dir es Parts of None \<Rightarrow> None | Some contents \<Rightarrow> find_dir contents Name)"
  by (induction es Parts rule: lookup_dir.induct) (auto split: option.splits)

lemma listed_fs_of_tree:
  assumes P: "\<forall>Part \<in> set Parts. plain_name Part"
    and look: "lookup_dir root Parts = Some es"
    and wf: "well_formed es"
  shows "map (\<lambda>e. (d_name e, d_type e = DT_DIR)) (listed (fs_of_tree root) (AsAbsoluteString Parts)) =
     map entry_kind es"
proof -
  from P have "Path (AsAbsoluteString Parts) = Inr Parts"
    by (intro Path_AsAbsoluteString) (simp add: plain_name_def)
  with look have fs: "fs_of_tree root (AsAbsoluteString Parts) =
      Some (\<lparr>d_name = ''.'', d_type = DT_DIR\<rparr> # \<lparr>d_name = ''..'', d_type = DT_DIR\<rparr> #
            map entry_dirent es)"
    by (simp add: fs_of_tree_def)
  have keep: "filter (\<lambda>e. d_name e \<noteq> ''.'' \<and> d_name e \<noteq> ''..'') (map entry_dirent xs) =
      map entry_dirent xs" if "\<forall>e \<in> set xs. plain_name (entry_name e)" for xs
    using that
  proof (induction xs)
    case Nil
    then show ?case by simp
  next
    case (Cons x xs)
    then show ?case by (cases x) (simp_all add: plain_name_def)
  qed
  have kind: "(\<lambda>e. (d_name e, d_type e = DT_DIR)) (entry_dirent e) = entry_kind e" for e
    by (cases e) simp_all
  from wf have "\<forall>e \<in> set es. plain_name (entry_name e)"
    by (blast intro: well_formed_names)
  from keep [OF this] show ?thesis
    by (simp add: listed_def fs kind)
qed

lemma subtrees_at_fs_of_tree:
  "\<forall>Part \<in> set Parts. plain_name Part \<Longrightarrow> lookup_dir root Parts = Some full \<Longrightarrow>
   well_formed full \<Longrightarrow> set es \<subseteq> set full \<Longrightarrow>
   subtrees_at (fs_of_tree root) Parts es"
proof (induction es arbitrary: Parts full rule: well_formed.induct)
  case 1
  show ?case by simp
next
  case (2 Name es)
  from "2.prems" have "set es \<subseteq> set full" by simp
  from "2.IH" [OF "2.prems"(1-3) this] show ?case by simp
next
  case (3 Name contents es)
  from "3.prems" have mem: "DirEntry Name contents \<in> set full" and more: "set es \<subseteq> set full"
    by simp_all
  from well_formed_names [OF "3.prems"(3) mem] have name: "plain_name Name" by simp
  from well_formed_contents [OF "3.prems"(3) mem] have wf: "well_formed contents" .
  from well_formed_find_dir [OF "3.prems"(3) mem] "3.prems"(2)
  have look: "lookup_dir root (Parts @ [Name]) = Some contents"
    by (simp add: lookup_dir_snoc)
  from "3.prems"(1) name have plain: "\<forall>Part \<in> set (Parts @ [Name]). plain_name Part" by simp
  have "tree_at (fs_of_tree root) (Parts @ [Name]) contents"
    using listed_fs_of_tree [OF plain look wf] "3.IH"(1) [OF plain look wf subset_refl]
    by simp
  moreover from name have "Name \<noteq> []" by (simp add: plain_name_def)
  moreover have "subtrees_at (fs_of_tree root) Parts es"
    by (rule "3.IH"(2) [OF "3.prems"(1-3) more])
  ultimately show ?case by simp
qed

lemma find_dir_mem: "find_dir es Name = Some contents \<Longrightarrow> DirEntry Name contents \<in> set es"
  by (induction es Name rule: find_dir.induct) (auto split: if_splits)

lemma lookup_dir_well_formed:
  "well_formed root \<Longrightarrow> lookup_dir root Parts = Some es \<Longrightarrow>
   well_formed es \<and> (\<forall>Part \<in> set Parts. plain_name Part)"
proof (induction root Parts rule: lookup_dir.induct)
  case (1 es')
  then show ?case by simp
next
  case (2 es' Part Parts)
  from "2.prems"(2) obtain contents where found: "find_dir es' Part = Some contents"
    and look: "lookup_dir contents Parts = Some es"
    by (auto split: option.splits)
  from find_dir_mem [OF found] have mem: "DirEntry Part contents \<in> set es'" .
  from well_formed_contents [OF "2.prems"(1) mem] have "well_formed contents" .
  from "2.IH" [OF found this look] well_formed_names [OF "2.prems"(1) mem]
  show ?case by simp
qed

lemma tree_at_fs_of_tree:
  assumes wf: "well_formed root" and look: "lookup_dir root Parts = Some es"
  shows "tree_at (fs_of_tree root) Parts es"
proof -
  from lookup_dir_well_formed [OF wf look]
  have wf': "well_formed es" and plain: "\<forall>Part \<in> set Parts. plain_name Part" by simp_all
  from listed_fs_of_tree [OF plain look wf']
    subtrees_at_fs_of_tree [OF plain look wf' subset_refl]
  show ?thesis by simp
qed

text \<open>
  C1. For every finite directory tree that the file system shows at the start directory,
  and so for every directory of every well-formed finite tree in the file system that holds
  it, \<^verbatim>\<open>Walk\<close> returns, and the sequence of its callback invocations is \<open>walk_order\<close>: all
  immediate files of a directory before any file of its subdirectories, the directories
  depth-first in pre-order, sibling subdirectories in the order of the listing. The cursor
  is back at the start directory and no transition is pending.
\<close>

theorem Walk_order_of_tree:
  "(tree_at fs this es \<longrightarrow>
      Walk fs this =
        Some (Inr \<lparr>Transitions = [], WalkMarker = this, Processed = walk_order this es\<rparr>)) \<and>
   (well_formed root \<and> lookup_dir root this = Some es \<longrightarrow>
      Walk (fs_of_tree root) this =
        Some (Inr \<lparr>Transitions = [], WalkMarker = this, Processed = walk_order this es\<rparr>))"
proof -
  have walk: "Walk fs this =
      Some (Inr \<lparr>Transitions = [], WalkMarker = this, Processed = walk_order this es\<rparr>)"
    if tree: "tree_at fs this es" for fs
  proof -
    have "Walk_init fs this =
        \<lparr>Transitions = dir_names es @ [], WalkMarker = this,
           Processed = map (Select this) (file_names es)\<rparr>"
      by (simp add: Walk_init_def ProcessFiles_def QueueNewTransitions_def tree_at_lists [OF tree])
    then show ?thesis
      unfolding Walk_def
      by (simp only: Walk_loop_subtrees(1) [OF tree] Walk_loop_done walk_order.simps)
  qed
  show ?thesis
  proof (intro conjI impI)
    assume "tree_at fs this es"
    then show "Walk fs this =
        Some (Inr \<lparr>Transitions = [], WalkMarker = this, Processed = walk_order this es\<rparr>)"
      by (rule walk)
  next
    assume "well_formed root \<and> lookup_dir root this = Some es"
    then have "well_formed root" and "lookup_dir root this = Some es" by simp_all
    then have "tree_at (fs_of_tree root) this es"
      by (rule tree_at_fs_of_tree)
    then show "Walk (fs_of_tree root) this =
        Some (Inr \<lparr>Transitions = [], WalkMarker = this, Processed = walk_order this es\<rparr>)"
      by (rule walk)
  qed
qed

lemma example_tree_at: "tree_at example_fs [''R''] example_tree"
  by (simp add: example_tree_def listed_def example_fs_def AsAbsoluteString_def)

theorem Walk_order_of_tree_witness:
  "tree_at example_fs [''R'']
     [FileEntry ''f1'', DirEntry ''U'' [], DirEntry ''D'' [FileEntry ''f2''], FileEntry ''f3''] \<and>
   Walk example_fs [''R''] =
     Some (Inr \<lparr>Transitions = [], WalkMarker = [''R''],
                  Processed = [[''R'', ''f1''], [''R'', ''f3''], [''R'', ''D'', ''f2'']]\<rparr>) \<and>
   well_formed [DirEntry ''R'' example_tree] \<and>
   lookup_dir [DirEntry ''R'' example_tree] [''R''] = Some example_tree \<and>
   Walk (fs_of_tree [DirEntry ''R'' example_tree]) [''R''] =
     Some (Inr \<lparr>Transitions = [], WalkMarker = [''R''],
                  Processed = [[''R'', ''f1''], [''R'', ''f3''], [''R'', ''D'', ''f2'']]\<rparr>)"
proof -
  have wf: "well_formed [DirEntry ''R'' example_tree]"
    by (simp add: example_tree_def plain_name_def)
  have look: "lookup_dir [DirEntry ''R'' example_tree] [''R''] = Some example_tree"
    by simp
  have order: "walk_order [''R''] example_tree =
      [[''R'', ''f1''], [''R'', ''f3''], [''R'', ''D'', ''f2'']]"
    by (simp add: example_tree_def Select_def)
  from Walk_order_of_tree [of example_fs "[''R'']" example_tree "[DirEntry ''R'' example_tree]"]
    example_tree_at wf look
  have "Walk example_fs [''R''] =
      Some (Inr \<lparr>Transitions = [], WalkMarker = [''R''],
                   Processed = walk_order [''R''] example_tree\<rparr>)"
    and "Walk (fs_of_tree [DirEntry ''R'' example_tree]) [''R''] =
      Some (Inr \<lparr>Transitions = [], WalkMarker = [''R''],
                   Processed = walk_order [''R''] example_tree\<rparr>)"
    by blast+
  then have walks: "Walk example_fs [''R''] =
      Some (Inr \<lparr>Transitions = [], WalkMarker = [''R''],
                   Processed = [[''R'', ''f1''], [''R'', ''f3''], [''R'', ''D'', ''f2'']]\<rparr>)"
    "Walk (fs_of_tree [DirEntry ''R'' example_tree]) [''R''] =
      Some (Inr \<lparr>Transitions = [], WalkMarker = [''R''],
                   Processed = [[''R'', ''f1''], [''R'', ''f3''], [''R'', ''D'', ''f2'']]\<rparr>)"
    by (simp_all only: order)
  have tree: "tree_at example_fs [''R'']
     [FileEntry ''f1'', DirEntry ''U'' [], DirEntry ''D'' [FileEntry ''f2''], FileEntry ''f3'']"
    using example_tree_at by (simp only: example_tree_def)
  from tree walks wf look show ?thesis by blast
qed

section \<open>The marker of the walk\<close>

lemma pending_ok_append:
  "\<forall>d \<in> set ds. d \<noteq> [] \<and> d \<in> set (ListDirectories fs marker) \<Longrightarrow>
   pending_ok fs root marker (ds @ pending) = pending_ok fs root marker pending"
  by (induction ds) simp_all

lemma pending_ok_prefix: "pending_ok fs root marker pending \<Longrightarrow> prefix root marker"
proof (induction pending arbitrary: marker)
  case Nil
  then show ?case by simp
next
  case (Cons action pending)
  show ?case
  proof (cases "action = []")
    case True
    with Cons.prems have "pending_ok fs root (butlast marker) pending" by simp
    then have "prefix root (butlast marker)" by (rule Cons.IH)
    then show ?thesis by (rule prefix_order.trans) (rule prefixeq_butlast)
  next
    case False
    with Cons.prems have "pending_ok fs root marker pending" by simp
    then show ?thesis by (rule Cons.IH)
  qed
qed

lemma pending_ok_init:
  assumes "\<forall>Parts. [] \<notin> set (ListDirectories fs Parts)"
  shows "pending_ok fs this (WalkMarker (Walk_init fs this)) (Transitions (Walk_init fs this))"
proof -
  have "\<forall>d \<in> set (ListDirectories fs this). d \<noteq> [] \<and> d \<in> set (ListDirectories fs this)"
    using assms by auto
  from pending_ok_append [OF this, of this "[]"] show ?thesis
    by (simp add: Walk_init_def ProcessFiles_def QueueNewTransitions_def)
qed

lemma pending_ok_descend:
  assumes names: "\<forall>Parts. [] \<notin> set (ListDirectories fs Parts)"
    and ok: "pending_ok fs root (WalkMarker st) (NextTransition # rest)"
    and descend: "NextTransition \<noteq> []"
  shows "Walk_body fs NextTransition (st\<lparr>Transitions := rest\<rparr>) =
           Inr \<lparr>Transitions = ListDirectories fs (Enter (WalkMarker st) NextTransition) @ [] # rest,
                WalkMarker = Enter (WalkMarker st) NextTransition,
                Processed = Processed st @ map (Select (Enter (WalkMarker st) NextTransition))
                  (ListFiles fs (Enter (WalkMarker st) NextTransition))\<rparr>"
    and "pending_ok fs root (Enter (WalkMarker st) NextTransition)
           (ListDirectories fs (Enter (WalkMarker st) NextTransition) @ [] # rest)"
proof -
  show "Walk_body fs NextTransition (st\<lparr>Transitions := rest\<rparr>) =
           Inr \<lparr>Transitions = ListDirectories fs (Enter (WalkMarker st) NextTransition) @ [] # rest,
                WalkMarker = Enter (WalkMarker st) NextTransition,
                Processed = Processed st @ map (Select (Enter (WalkMarker st) NextTransition))
                  (ListFiles fs (Enter (WalkMarker st) NextTransition))\<rparr>"
    using descend by (simp add: Walk_body_def ProcessFiles_def QueueNewTransitions_def)
  let ?m = "Enter (WalkMarker st) NextTransition"
  have "\<forall>d \<in> set (ListDirectories fs ?m). d \<noteq> [] \<and> d \<in> set (ListDirectories fs ?m)"
    using names by auto
  from pending_ok_append [OF this]
  have "pending_ok fs root ?m (ListDirectories fs ?m @ [] # rest) =
      pending_ok fs root ?m ([] # rest)" .
  also have "\<dots> = pending_ok fs root (WalkMarker st) rest"
    by (simp add: Enter_def)
  finally show "pending_ok fs root ?m (ListDirectories fs ?m @ [] # rest)"
    using ok descend by simp
qed

lemma pending_ok_ascend:
  assumes ok: "pending_ok fs root (WalkMarker st) ([] # rest)"
  shows "Walk_body fs [] (st\<lparr>Transitions := rest\<rparr>) =
           Inr (st\<lparr>Transitions := rest, WalkMarker := butlast (WalkMarker st)\<rparr>)"
    and "pending_ok fs root (butlast (WalkMarker st)) rest"
  using ok by (simp_all add: Walk_body_def Exit_def IsRoot_def)

lemma walk_reach_pending_ok:
  assumes names: "\<forall>Parts. [] \<notin> set (ListDirectories fs Parts)"
  shows "walk_reach fs this st \<Longrightarrow> pending_ok fs this (WalkMarker st) (Transitions st)"
proof (induction rule: walk_reach.induct)
  case start
  show ?case by (rule pending_ok_init [OF names])
next
  case (step st NextTransition rest st')
  from step.IH step.hyps(2)
  have ok: "pending_ok fs this (WalkMarker st) (NextTransition # rest)" by simp
  show ?case
  proof (cases "NextTransition = []")
    case True
    from pending_ok_ascend [OF ok [unfolded True]] step.hyps(3) True
    show ?thesis by auto
  next
    case False
    from pending_ok_descend [OF names ok False] step.hyps(3)
    show ?thesis by auto
  qed
qed

lemma Walk_body_reachable:
  assumes names: "\<forall>Parts. [] \<notin> set (ListDirectories fs Parts)"
    and reach: "walk_reach fs this st"
    and pending: "Transitions st = NextTransition # rest"
  shows "\<exists>st'. Walk_body fs NextTransition (st\<lparr>Transitions := rest\<rparr>) = Inr st'"
proof -
  from walk_reach_pending_ok [OF names reach] pending
  have ok: "pending_ok fs this (WalkMarker st) (NextTransition # rest)" by simp
  show ?thesis
  proof (cases "NextTransition = []")
    case True
    from pending_ok_ascend(1) [OF ok [unfolded True]] True show ?thesis by blast
  next
    case False
    from pending_ok_descend(1) [OF names ok False] show ?thesis by blast
  qed
qed

lemma Walk_loop_returns:
  assumes ret: "Walk_loop fs st = Some r"
  shows "(\<forall>Parts. [] \<notin> set (ListDirectories fs Parts)) \<longrightarrow> walk_reach fs this st \<longrightarrow>
     (\<exists>st'. r = Inr st' \<and> walk_reach fs this st' \<and> Transitions st' = [])"
proof (rule Walk_loop.raw_induct
    [where P = "\<lambda>fs st r. (\<forall>Parts. [] \<notin> set (ListDirectories fs Parts)) \<longrightarrow>
       walk_reach fs this st \<longrightarrow>
       (\<exists>st'. r = Inr st' \<and> walk_reach fs this st' \<and> Transitions st' = [])",
     OF _ ret], goal_cases)
  case (1 loop fs st r)
  note IH = "1"(1) and body = "1"(2)
  show ?case
  proof (intro impI)
    assume names: "\<forall>Parts. [] \<notin> set (ListDirectories fs Parts)"
      and reach: "walk_reach fs this st"
    show "\<exists>st'. r = Inr st' \<and> walk_reach fs this st' \<and> Transitions st' = []"
    proof (cases "Transitions st")
      case Nil
      with body reach show ?thesis by auto
    next
      case (Cons NextTransition rest)
      from Walk_body_reachable [OF names reach Cons]
      obtain st' where step: "Walk_body fs NextTransition (st\<lparr>Transitions := rest\<rparr>) = Inr st'" ..
      from reach Cons step have "walk_reach fs this st'" by (rule walk_reach.step)
      moreover from body Cons step have "loop fs st' = Some r" by simp
      ultimately show ?thesis using IH names by blast
    qed
  qed
qed

text \<open>
  C8. With listings that hold no empty name, at every pass of the loop of \<^verbatim>\<open>Walk\<close>: the
  pending actions satisfy the step invariant; a descend at the front finds its target
  among the subdirectories of the marker, enters it and queues an ascend paired with it,
  behind the subdirectories of the target and before the rest; an ascend at the front
  finds the marker one level below its target, a directory at or below the start
  directory, and moves the marker there, the assertion of \<^verbatim>\<open>Exit\<close> holding; with no action
  pending the marker is the start directory. A walk that returns returns no error, with an
  empty work list and the marker at the start directory.
\<close>

theorem Walk_marker_invariant:
  "((\<forall>Parts. [] \<notin> set (ListDirectories fs Parts)) \<and> walk_reach fs this st \<longrightarrow>
      pending_ok fs this (WalkMarker st) (Transitions st) \<and>
      (\<forall>NextTransition rest. Transitions st = NextTransition # rest \<longrightarrow>
         (NextTransition \<noteq> [] \<longrightarrow>
            NextTransition \<in> set (ListDirectories fs (WalkMarker st)) \<and>
            (\<exists>queued processed.
               Walk_body fs NextTransition (st\<lparr>Transitions := rest\<rparr>) =
                 Inr \<lparr>Transitions = queued @ [] # rest,
                      WalkMarker = Enter (WalkMarker st) NextTransition,
                      Processed = processed\<rparr>)) \<and>
         (NextTransition = [] \<longrightarrow>
            (\<exists>target Name.
               WalkMarker st = Enter target Name \<and> prefix this target \<and>
               Walk_body fs NextTransition (st\<lparr>Transitions := rest\<rparr>) =
                 Inr (st\<lparr>Transitions := rest, WalkMarker := target\<rparr>)))) \<and>
      (Transitions st = [] \<longrightarrow> WalkMarker st = this)) \<and>
   ((\<forall>Parts. [] \<notin> set (ListDirectories fs Parts)) \<and> Walk fs this = Some r \<longrightarrow>
      (\<exists>final. r = Inr final \<and> Transitions final = [] \<and> WalkMarker final = this))"
proof (intro conjI impI allI)
  assume a: "(\<forall>Parts. [] \<notin> set (ListDirectories fs Parts)) \<and> walk_reach fs this st"
  then have names: "\<forall>Parts. [] \<notin> set (ListDirectories fs Parts)"
    and reach: "walk_reach fs this st" by simp_all
  show ok: "pending_ok fs this (WalkMarker st) (Transitions st)"
    by (rule walk_reach_pending_ok [OF names reach])
  show "WalkMarker st = this" if "Transitions st = []"
    using ok that by simp
  fix NextTransition rest
  assume pending: "Transitions st = NextTransition # rest"
  with ok have ok': "pending_ok fs this (WalkMarker st) (NextTransition # rest)" by simp
  {
    assume descend: "NextTransition \<noteq> []"
    with ok' show "NextTransition \<in> set (ListDirectories fs (WalkMarker st))" by simp
    from pending_ok_descend(1) [OF names ok' descend]
    show "\<exists>queued processed.
        Walk_body fs NextTransition (st\<lparr>Transitions := rest\<rparr>) =
          Inr \<lparr>Transitions = queued @ [] # rest,
               WalkMarker = Enter (WalkMarker st) NextTransition,
               Processed = processed\<rparr>" by blast
  }
  {
    assume ascend: "NextTransition = []"
    from ok' ascend have ne: "WalkMarker st \<noteq> []"
      and up: "pending_ok fs this (butlast (WalkMarker st)) rest" by simp_all
    from ne have "WalkMarker st = Enter (butlast (WalkMarker st)) (last (WalkMarker st))"
      by (simp add: Enter_def)
    moreover from up have "prefix this (butlast (WalkMarker st))" by (rule pending_ok_prefix)
    moreover from pending_ok_ascend(1) [OF ok' [unfolded ascend]] ascend
    have "Walk_body fs NextTransition (st\<lparr>Transitions := rest\<rparr>) =
        Inr (st\<lparr>Transitions := rest, WalkMarker := butlast (WalkMarker st)\<rparr>)" by simp
    ultimately show "\<exists>target Name.
        WalkMarker st = Enter target Name \<and> prefix this target \<and>
        Walk_body fs NextTransition (st\<lparr>Transitions := rest\<rparr>) =
          Inr (st\<lparr>Transitions := rest, WalkMarker := target\<rparr>)" by blast
  }
next
  assume a: "(\<forall>Parts. [] \<notin> set (ListDirectories fs Parts)) \<and> Walk fs this = Some r"
  then have names: "\<forall>Parts. [] \<notin> set (ListDirectories fs Parts)"
    and ret: "Walk_loop fs (Walk_init fs this) = Some r" by (simp_all add: Walk_def)
  from Walk_loop_returns [OF ret, of this] names walk_reach.start [of fs this]
  obtain final where final: "r = Inr final" "walk_reach fs this final" "Transitions final = []"
    by blast
  from walk_reach_pending_ok [OF names final(2)] final(3) have "WalkMarker final = this" by simp
  with final show "\<exists>final. r = Inr final \<and> Transitions final = [] \<and> WalkMarker final = this"
    by blast
qed

lemma example_fs_directory_names: "[] \<notin> set (ListDirectories example_fs Parts)"
  unfolding ListDirectories_listed listed_def example_fs_def
  by (auto split: option.splits if_splits)

lemma example_walk_init:
  "Walk_init example_fs [''R''] =
     \<lparr>Transitions = [''U'', ''D''], WalkMarker = [''R''],
        Processed = [[''R'', ''f1''], [''R'', ''f3'']]\<rparr>"
  by (simp add: Walk_init_def ProcessFiles_def QueueNewTransitions_def example_fs_R Select_def)

lemma example_walk_step:
  "Walk_body example_fs ''U''
     \<lparr>Transitions = [''D''], WalkMarker = [''R''],
        Processed = [[''R'', ''f1''], [''R'', ''f3'']]\<rparr> =
   Inr \<lparr>Transitions = [[], ''D''], WalkMarker = [''R'', ''U''],
          Processed = [[''R'', ''f1''], [''R'', ''f3'']]\<rparr>"
  using unreadable_lists [of example_fs "[''R'', ''U'']"] example_fs_U
  by (simp add: Walk_body_def ProcessFiles_def QueueNewTransitions_def Enter_def)

lemma example_walk_reach:
  "walk_reach example_fs [''R'']
     \<lparr>Transitions = [[], ''D''], WalkMarker = [''R'', ''U''],
        Processed = [[''R'', ''f1''], [''R'', ''f3'']]\<rparr>"
proof -
  have "walk_reach example_fs [''R''] (Walk_init example_fs [''R''])"
    by (rule walk_reach.start)
  then show ?thesis
  proof (rule walk_reach.step)
    show "Transitions (Walk_init example_fs [''R'']) = ''U'' # [''D'']"
      by (simp add: example_walk_init)
    show "Walk_body example_fs ''U'' (Walk_init example_fs [''R''] \<lparr>Transitions := [''D'']\<rparr>) =
        Inr \<lparr>Transitions = [[], ''D''], WalkMarker = [''R'', ''U''],
               Processed = [[''R'', ''f1''], [''R'', ''f3'']]\<rparr>"
      by (simp add: example_walk_init example_walk_step)
  qed
qed

theorem Walk_marker_invariant_witness:
  "walk_reach example_fs [''R'']
     \<lparr>Transitions = [[], ''D''], WalkMarker = [''R'', ''U''],
        Processed = [[''R'', ''f1''], [''R'', ''f3'']]\<rparr> \<and>
   pending_ok example_fs [''R''] [''R'', ''U''] [[], ''D''] \<and>
   Walk_body example_fs []
     \<lparr>Transitions = [''D''], WalkMarker = [''R'', ''U''],
        Processed = [[''R'', ''f1''], [''R'', ''f3'']]\<rparr> =
   Inr \<lparr>Transitions = [''D''], WalkMarker = [''R''],
          Processed = [[''R'', ''f1''], [''R'', ''f3'']]\<rparr> \<and>
   Walk example_fs [''R''] =
     Some (Inr \<lparr>Transitions = [], WalkMarker = [''R''],
                  Processed = [[''R'', ''f1''], [''R'', ''f3''], [''R'', ''D'', ''f2'']]\<rparr>)"
proof -
  let ?st = "\<lparr>Transitions = [[], ''D''], WalkMarker = [''R'', ''U''],
        Processed = [[''R'', ''f1''], [''R'', ''f3'']]\<rparr>"
  have names: "\<forall>Parts. [] \<notin> set (ListDirectories example_fs Parts)"
    using example_fs_directory_names by blast
  have walk: "Walk example_fs [''R''] =
     Some (Inr \<lparr>Transitions = [], WalkMarker = [''R''],
                  Processed = [[''R'', ''f1''], [''R'', ''f3''], [''R'', ''D'', ''f2'']]\<rparr>)"
    unfolding Walk_def example_walk_init
    using unreadable_lists [of example_fs "[''R'', ''U'']"] example_fs_U
    by (simp add: Walk_loop_descend Enter_def Select_def example_fs_D Walk_loop_ascend_butlast
        Walk_loop_done)
  from Walk_marker_invariant [of example_fs "[''R'']" ?st
      "Inr \<lparr>Transitions = [], WalkMarker = [''R''],
                  Processed = [[''R'', ''f1''], [''R'', ''f3''], [''R'', ''D'', ''f2'']]\<rparr>"]
    names example_walk_reach
  have ok: "pending_ok example_fs [''R''] (WalkMarker ?st) (Transitions ?st)"
    and asc: "\<exists>target Name. WalkMarker ?st = Enter target Name \<and> prefix [''R''] target \<and>
        Walk_body example_fs [] (?st\<lparr>Transitions := [''D'']\<rparr>) =
          Inr (?st\<lparr>Transitions := [''D''], WalkMarker := target\<rparr>)"
    by simp_all
  from asc have "Walk_body example_fs []
     \<lparr>Transitions = [''D''], WalkMarker = [''R'', ''U''],
        Processed = [[''R'', ''f1''], [''R'', ''f3'']]\<rparr> =
   Inr \<lparr>Transitions = [''D''], WalkMarker = [''R''],
          Processed = [[''R'', ''f1''], [''R'', ''f3'']]\<rparr>"
    by (auto simp: Enter_def)
  with ok example_walk_reach walk show ?thesis by simp
qed

end
